theory Spec2Isabelle
  imports Main "HOL-Library.Word"
begin

unbundle bit_operations_syntax

section \<open>Kernel scheduler (kernel/scheduler.cpp, kernel/types/KThread.h)\<close>

text \<open>
  Machine integers of the source: \<open>u8\<close>, \<open>i8\<close>, \<open>u32\<close> and \<open>u64\<close>. An \<open>i8\<close> is the
  same eight bits as a \<open>u8\<close>, read with \<open>sint\<close> instead of \<open>uint\<close>.
\<close>

type_synonym u8 = "8 word"
type_synonym i8 = "8 word"
type_synonym u32 = "32 word"
type_synonym u64 = "64 word"

text \<open>
  A \<open>std::shared_ptr<KThread>\<close> is an address into a store of thread control blocks; two
  pointers are equal when the addresses are.
\<close>

type_synonym thread_ptr = nat

text \<open>
  The fields of \<open>KThread\<close> that the scheduler reads or writes. \<open>affinityMask\<close> is a
  \<open>std::bitset\<close>: bit \<open>i\<close> is element \<open>i\<close> of the list.
\<close>

record KThread =
  priority :: u8
  coreId :: i8
  affinityMask :: "bool list"
  timesliceStart :: u64
  averageTimeslice :: u64
  isPreempted :: bool
  pendingYield :: bool
  forceYield :: bool

record CoreContext =
  id' :: u8
  preemptionPriority :: u8
  queue :: "thread_ptr list"

text \<open>
  What the scheduler does to the outside world, in the order it does it: a host signal sent
  to a thread, a preemption timer armed or disarmed, a condition variable notified.
\<close>

datatype event =
  SendSignal thread_ptr
  | TimerArm thread_ptr
  | TimerDisarm thread_ptr
  | NotifyFront nat
  | NotifyParked

text \<open>
  The scheduler's state. \<open>threads\<close> is the store behind the shared pointers;
  \<open>YieldPending\<close> is the thread-local flag of each host thread; \<open>ticks\<close> with
  \<open>ticksRead\<close> is the tick source: the \<open>n\<close>-th call of \<open>util::GetTimeTicks\<close> returns
  \<open>ticks n\<close>.
\<close>

record Scheduler =
  cores :: "CoreContext list"
  parkedQueue :: "thread_ptr list"
  threads :: "thread_ptr \<Rightarrow> KThread"
  YieldPending :: "thread_ptr \<Rightarrow> bool"
  ticks :: "nat \<Rightarrow> u64"
  ticksRead :: nat
  events :: "event list"

text \<open>
  A call either returns or is cut short: by \<open>std::out_of_range\<close> (\<open>cores.at\<close>,
  \<open>bitset::test\<close>), by the emulator's own \<open>exception\<close>, or by undefined behaviour (a null
  pointer dereferenced, \<open>front()\<close> of an empty list). The state reached when the call was
  cut short is kept with the error.
\<close>

datatype error = OutOfRange | Exception string | UndefinedBehaviour

type_synonym 'a result = "(error \<times> Scheduler) + 'a"

definition upd_thread :: "Scheduler \<Rightarrow> thread_ptr \<Rightarrow> (KThread \<Rightarrow> KThread) \<Rightarrow> Scheduler" where
  "upd_thread s t f = s\<lparr>threads := (threads s)(t := f (threads s t))\<rparr>"

definition set_queue :: "Scheduler \<Rightarrow> nat \<Rightarrow> thread_ptr list \<Rightarrow> Scheduler" where
  "set_queue s ci q = s\<lparr>cores := (cores s)[ci := (cores s ! ci)\<lparr>queue := q\<rparr>]\<rparr>"

definition emit :: "Scheduler \<Rightarrow> event \<Rightarrow> Scheduler" where
  "emit s e = s\<lparr>events := events s @ [e]\<rparr>"

definition GetTimeTicks :: "Scheduler \<Rightarrow> u64 \<times> Scheduler" where
  "GetTimeTicks s = (ticks s (ticksRead s), s\<lparr>ticksRead := Suc (ticksRead s)\<rparr>)"

text \<open>
  \<open>cores.at(thread->coreId)\<close>: the \<open>i8\<close> is converted to \<open>size_t\<close>, so a negative
  core is out of range like one past the end. The result is the index of the core.
\<close>

definition cores_at :: "Scheduler \<Rightarrow> i8 \<Rightarrow> nat option" where
  "cores_at s c =
     (if 0 \<le> sint c \<and> nat (sint c) < length (cores s) then Some (nat (sint c)) else None)"

text \<open>
  \<open>KThread::IsHigherPriority(const i8 priority, it)\<close> is \<open>priority < it->priority\<close>: the
  left side is an \<open>i8\<close>, the right side the thread's \<open>u8\<close>, both promoted to \<open>int\<close>.
\<close>

definition IsHigherPriority :: "i8 \<Rightarrow> KThread \<Rightarrow> bool" where
  "IsHigherPriority p it = (sint p < uint (priority it))"

text \<open>
  \<open>std::upper_bound(first, last, value, comp)\<close> as the standard library writes it: a
  binary search that halves \<open>count\<close>, returning the position as an index.
\<close>

function upper_bound_from ::
  "(thread_ptr \<Rightarrow> KThread) \<Rightarrow> thread_ptr list \<Rightarrow> u8 \<Rightarrow> nat \<Rightarrow> nat \<Rightarrow> nat" where
  "upper_bound_from ts q v first count =
     (if 0 < count then
        (let step = count div 2; it = first + step in
         if \<not> IsHigherPriority v (ts (q ! it))
         then upper_bound_from ts q v (it + 1) (count - (step + 1))
         else upper_bound_from ts q v first step)
      else first)"
  by pat_completeness auto
termination
  by (relation "measure (\<lambda>(ts, q, v, first, count). count)") auto

declare upper_bound_from.simps [simp del]

definition upper_bound :: "(thread_ptr \<Rightarrow> KThread) \<Rightarrow> thread_ptr list \<Rightarrow> u8 \<Rightarrow> nat" where
  "upper_bound ts q v = upper_bound_from ts q v 0 (length q)"

text \<open>
  \<open>queue.splice(pos, queue, queue.begin())\<close>: the first element is moved in front of
  position \<open>k\<close>; nothing moves when \<open>k\<close> is the first element or the one after it.
\<close>

definition splice_front :: "nat \<Rightarrow> 'a list \<Rightarrow> 'a list" where
  "splice_front k q =
     (case q of [] \<Rightarrow> [] | x # xs \<Rightarrow> if k = 0 then x # xs else take (k - 1) xs @ x # drop (k - 1) xs)"

text \<open>\<open>queue.insert(pos, thread)\<close> at index \<open>k\<close>.\<close>

definition insert_at :: "nat \<Rightarrow> 'a \<Rightarrow> 'a list \<Rightarrow> 'a list" where
  "insert_at k x q = take k q @ x # drop k q"

text \<open>\<open>std::find(queue.begin(), queue.end(), thread)\<close>: the index of the first match.\<close>

fun find_index_of :: "thread_ptr \<Rightarrow> thread_ptr list \<Rightarrow> nat option" where
  "find_index_of t [] = None"
| "find_index_of t (x # xs) =
     (if x = t then Some 0 else map_option Suc (find_index_of t xs))"

text \<open>\<open>queue.erase(it)\<close> at index \<open>k\<close>.\<close>

definition erase_at :: "nat \<Rightarrow> 'a list \<Rightarrow> 'a list" where
  "erase_at k q = take k q @ drop (Suc k) q"

text \<open>\<open>Scheduler::InsertThread\<close>, called by host thread \<open>self\<close> (\<open>state.thread\<close>).\<close>

definition InsertThread :: "Scheduler \<Rightarrow> thread_ptr \<Rightarrow> thread_ptr \<Rightarrow> Scheduler result" where
  "InsertThread s self thread =
     (case cores_at s (coreId (threads s thread)) of
        None \<Rightarrow> Inl (OutOfRange, s)
      | Some ci \<Rightarrow>
          (let q = queue (cores s ! ci);
               nextThread = upper_bound (threads s) q (priority (threads s thread))
           in if nextThread = 0 then
                (let s1 =
                   (if nextThread \<noteq> length q then
                      (let front = hd q;
                           s2 = upd_thread s front (\<lambda>t. t\<lparr>forceYield := True\<rparr>);
                           pos = upper_bound (threads s2) q (priority (threads s2 front));
                           s3 = set_queue s2 ci (thread # splice_front pos q)
                       in if self \<noteq> front then
                            (if \<not> pendingYield (threads s3 front)
                             then upd_thread (emit s3 (SendSignal front)) front
                                    (\<lambda>t. t\<lparr>pendingYield := True\<rparr>)
                             else s3)
                          else s3\<lparr>YieldPending := (YieldPending s3)(self := True)\<rparr>)
                    else set_queue s ci (thread # q))
                 in Inr (if thread \<noteq> self then emit s1 (NotifyFront ci) else s1))
              else Inr (set_queue s ci (insert_at nextThread thread q))))"

text \<open>
  The running average both \<open>Rotate\<close> and \<open>RemoveThread\<close> compute:
  \<open>(averageTimeslice / 4) + (3 * (GetTimeTicks() - timesliceStart / 4))\<close>, in \<open>u64\<close>.
\<close>

definition update_averageTimeslice :: "Scheduler \<Rightarrow> thread_ptr \<Rightarrow> Scheduler" where
  "update_averageTimeslice s thread =
     (let (now, s1) = GetTimeTicks s
      in upd_thread s1 thread
           (\<lambda>t. t\<lparr>averageTimeslice :=
                     (averageTimeslice t div 4) + (3 * (now - timesliceStart t div 4))\<rparr>))"

text \<open>\<open>Scheduler::Rotate(cooperative)\<close>, called by \<open>self\<close>.\<close>

definition Rotate :: "Scheduler \<Rightarrow> thread_ptr \<Rightarrow> bool \<Rightarrow> Scheduler result" where
  "Rotate s self cooperative =
     (case cores_at s (coreId (threads s self)) of
        None \<Rightarrow> Inl (OutOfRange, s)
      | Some ci \<Rightarrow>
          (let q = queue (cores s ! ci) in
           if q = [] then Inl (UndefinedBehaviour, s)
           else
             (let r =
                (if hd q = self then
                   (let q1 = splice_front (upper_bound (threads s) q (priority (threads s self))) q;
                        s1 = set_queue s ci q1
                    in Inr (if hd q1 \<noteq> self then emit s1 (NotifyFront ci) else s1))
                 else if \<not> forceYield (threads s self)
                 then Inl (Exception ''T{} called Rotate while not being in C{}'s queue'', s)
                 else Inr s)
              in case r of
                   Inl e \<Rightarrow> Inl e
                 | Inr s1 \<Rightarrow>
                     (let s2 = update_averageTimeslice s1 self;
                          s3 = (if cooperative \<and> isPreempted (threads s2 self)
                                then emit s2 (TimerDisarm self) else s2)
                      in Inr (upd_thread s3 self
                                (\<lambda>t. t\<lparr>isPreempted := False, pendingYield := False,
                                        forceYield := False\<rparr>))))))"

text \<open>\<open>Scheduler::RemoveThread()\<close>, called by \<open>self\<close>.\<close>

definition RemoveThread :: "Scheduler \<Rightarrow> thread_ptr \<Rightarrow> Scheduler result" where
  "RemoveThread s self =
     (case cores_at s (coreId (threads s self)) of
        None \<Rightarrow> Inl (OutOfRange, s)
      | Some ci \<Rightarrow>
          (let q = queue (cores s ! ci);
               s1 =
                 (case find_index_of self q of
                    None \<Rightarrow> s
                  | Some k \<Rightarrow>
                      (let s2 = set_queue s ci (erase_at k q) in
                       if k = 0 then
                         (let s3 = (if timesliceStart (threads s2 self) \<noteq> 0
                                    then update_averageTimeslice s2 self else s2)
                          in if erase_at k q \<noteq> [] then emit s3 (NotifyFront ci) else s3)
                       else s2));
               s4 = (if isPreempted (threads s1 self)
                     then upd_thread (emit s1 (TimerDisarm self)) self
                            (\<lambda>t. t\<lparr>isPreempted := False\<rparr>)
                     else s1)
           in Inr (s4\<lparr>YieldPending := (YieldPending s4)(self := False)\<rparr>)))"

text \<open>
  \<open>Scheduler::UpdatePriority(thread)\<close>. The source returns when \<open>currentIt\<close> is
  \<open>queue.end()\<close> or \<open>queue.begin()\<close>, and only then tests \<open>currentIt == queue.begin()\<close>;
  the model keeps both tests in that order.
\<close>

definition UpdatePriority :: "Scheduler \<Rightarrow> thread_ptr \<Rightarrow> Scheduler result" where
  "UpdatePriority s thread =
     (case cores_at s (coreId (threads s thread)) of
        None \<Rightarrow> Inl (OutOfRange, s)
      | Some ci \<Rightarrow>
          (let core = cores s ! ci; q = queue core in
           case find_index_of thread q of
             None \<Rightarrow> Inr s
           | Some currentIt \<Rightarrow>
               if currentIt = 0 then Inr s
               else if currentIt = 0 then
                 (if 1 < length q \<and> priority (threads s (q ! 1)) < priority (threads s thread)
                  then
                    (if \<not> pendingYield (threads s thread)
                     then Inr (upd_thread (emit s (SendSignal thread)) thread
                                 (\<lambda>t. t\<lparr>pendingYield := True\<rparr>))
                     else Inr s)
                  else if \<not> isPreempted (threads s thread)
                          \<and> priority (threads s thread) = preemptionPriority core
                  then Inr (upd_thread (emit s (TimerArm thread)) thread
                              (\<lambda>t. t\<lparr>isPreempted := True\<rparr>))
                  else Inr s)
               else
                 (let targetIt = upper_bound (threads s) q (priority (threads s thread)) in
                  if currentIt = targetIt then Inr s
                  else
                    (let q1 = erase_at currentIt q;
                         s1 = set_queue s ci q1;
                         s2 = (if isPreempted (threads s1 thread)
                                  \<and> priority (threads s1 thread) \<noteq> preemptionPriority core
                               then upd_thread (emit s1 (TimerDisarm thread)) thread
                                      (\<lambda>t. t\<lparr>isPreempted := False\<rparr>)
                               else s1);
                         targetIt2 = upper_bound (threads s2) q1 (priority (threads s2 thread))
                     in if targetIt2 = 0 \<and> targetIt2 \<noteq> length q1 then
                          (let s3 = set_queue s2 ci (insert_at 1 thread q1);
                               front = hd (insert_at 1 thread q1)
                           in if \<not> pendingYield (threads s3 front)
                              then Inr (upd_thread (emit s3 (SendSignal front)) front
                                          (\<lambda>t. t\<lparr>pendingYield := True\<rparr>))
                              else Inr s3)
                        else Inr (set_queue s2 ci (insert_at targetIt2 thread q1))))))"

text \<open>
  \<open>Scheduler::LoadBalance\<close>: the estimate for the thread at the front of a candidate core,
  \<open>averageTimeslice ? min(averageTimeslice - (GetTimeTicks() - timesliceStart), 1UL)
   : timesliceStart ? GetTimeTicks() - timesliceStart : 1UL\<close>.
\<close>

definition running_estimate :: "Scheduler \<Rightarrow> KThread \<Rightarrow> u64 \<times> Scheduler" where
  "running_estimate s runningThread =
     (if averageTimeslice runningThread \<noteq> 0 then
        (let (now, s1) = GetTimeTicks s
         in (min (averageTimeslice runningThread - (now - timesliceStart runningThread)) 1, s1))
      else if timesliceStart runningThread \<noteq> 0 then
        (let (now, s1) = GetTimeTicks s in (now - timesliceStart runningThread, s1))
      else (1, s))"

text \<open>The inner \<open>while\<close> loop over the threads behind the front of a candidate core.\<close>

fun resident_estimate :: "(thread_ptr \<Rightarrow> KThread) \<Rightarrow> u8 \<Rightarrow> thread_ptr list \<Rightarrow> u64 \<Rightarrow> u64" where
  "resident_estimate ts p [] timeslice = timeslice"
| "resident_estimate ts p (residentThread # rest) timeslice =
     resident_estimate ts p rest
       (if priority (ts residentThread) \<le> p
        then timeslice + (if averageTimeslice (ts residentThread) \<noteq> 0
                          then averageTimeslice (ts residentThread) else 1)
        else timeslice)"

definition core_timeslice :: "Scheduler \<Rightarrow> thread_ptr \<Rightarrow> CoreContext \<Rightarrow> u64 \<times> Scheduler" where
  "core_timeslice s thread candidateCore =
     (case queue candidateCore of
        [] \<Rightarrow> (0, s)
      | runningThread # rest \<Rightarrow>
          (let (t0, s1) = running_estimate s (threads s runningThread)
           in (resident_estimate (threads s1) (priority (threads s1 thread)) rest t0, s1)))"

text \<open>
  The loop \<open>for (auto &candidateCore : cores)\<close>: \<open>i\<close> is the index of the candidate,
  \<open>optimalCore\<close> the index chosen so far (\<open>None\<close> is the null pointer).
  \<open>affinityMask.test\<close> throws when the core's id is not a bit of the mask.
\<close>

fun LoadBalance_cores ::
  "Scheduler \<Rightarrow> thread_ptr \<Rightarrow> nat \<Rightarrow> CoreContext list \<Rightarrow> nat \<Rightarrow> nat option \<Rightarrow> u64
     \<Rightarrow> (nat option \<times> Scheduler) result" where
  "LoadBalance_cores s thread currentCore [] i optimalCore minTimeslice = Inr (optimalCore, s)"
| "LoadBalance_cores s thread currentCore (candidateCore # rest) i optimalCore minTimeslice =
     (let bits = affinityMask (threads s thread) in
      if \<not> unat (id' candidateCore) < length bits then Inl (OutOfRange, s)
      else if bits ! unat (id' candidateCore) then
        (let (timeslice, s1) = core_timeslice s thread candidateCore in
         if optimalCore = None \<or> timeslice < minTimeslice
            \<or> (timeslice = minTimeslice \<and> i = currentCore)
         then LoadBalance_cores s1 thread currentCore rest (Suc i) (Some i) timeslice
         else LoadBalance_cores s1 thread currentCore rest (Suc i) optimalCore minTimeslice)
      else LoadBalance_cores s thread currentCore rest (Suc i) optimalCore minTimeslice)"

text \<open>\<open>affinityMask.count()\<close>.\<close>

definition mask_count :: "bool list \<Rightarrow> nat" where
  "mask_count bits = length (filter (\<lambda>b. b) bits)"

text \<open>
  \<open>Scheduler::LoadBalance(thread, alwaysInsert)\<close>, called by \<open>self\<close>; it returns the index
  of the core it hands back with the state.
\<close>

definition LoadBalance ::
  "Scheduler \<Rightarrow> thread_ptr \<Rightarrow> thread_ptr \<Rightarrow> bool \<Rightarrow> (nat \<times> Scheduler) result" where
  "LoadBalance s self thread alwaysInsert =
     (case cores_at s (coreId (threads s thread)) of
        None \<Rightarrow> Inl (OutOfRange, s)
      | Some currentCore \<Rightarrow>
          if queue (cores s ! currentCore) \<noteq> []
             \<and> mask_count (affinityMask (threads s thread)) \<noteq> 1
          then
            (case LoadBalance_cores s thread currentCore (cores s) 0 None 0 of
               Inl e \<Rightarrow> Inl e
             | Inr (optimalCore, s1) \<Rightarrow>
                 if optimalCore \<noteq> Some currentCore then
                   (case (if \<not> alwaysInsert \<and> thread = self then RemoveThread s1 self
                          else if \<not> alwaysInsert \<and> thread \<noteq> self
                          then Inl (Exception
                                 ''Migrating an external thread (T{}) without 'alwaysInsert' isn't supported'',
                                 s1)
                          else Inr s1) of
                      Inl e \<Rightarrow> Inl e
                    | Inr s2 \<Rightarrow>
                        (case optimalCore of
                           None \<Rightarrow> Inl (UndefinedBehaviour, s2)
                         | Some oc \<Rightarrow>
                             (case InsertThread
                                     (upd_thread s2 thread
                                        (\<lambda>t. t\<lparr>coreId := id' (cores s2 ! oc)\<rparr>))
                                     self thread of
                                Inl e \<Rightarrow> Inl e
                              | Inr s3 \<Rightarrow> Inr (oc, s3))))
                 else
                   (case (if alwaysInsert then InsertThread s1 self thread else Inr s1) of
                      Inl e \<Rightarrow> Inl e
                    | Inr s2 \<Rightarrow> Inr (currentCore, s2)))
          else
            (case (if alwaysInsert then InsertThread s self thread else Inr s) of
               Inl e \<Rightarrow> Inl e
             | Inr s1 \<Rightarrow> Inr (currentCore, s1)))"

text \<open>
  \<open>Scheduler::WakeParkedThread()\<close>, called by \<open>self\<close>. \<open>nextThread\<close> is the null pointer
  when the queue holds at most one thread, and the next statement reads
  \<open>nextThread->priority\<close> whatever it is.
\<close>

definition WakeParkedThread :: "Scheduler \<Rightarrow> thread_ptr \<Rightarrow> Scheduler result" where
  "WakeParkedThread s self =
     (if parkedQueue s \<noteq> [] then
        (case cores_at s (coreId (threads s self)) of
           None \<Rightarrow> Inl (OutOfRange, s)
         | Some ci \<Rightarrow>
             (let q = queue (cores s ! ci);
                  nextThread = (if 1 < length q then Some (q ! 1) else None)
              in case nextThread of
                   None \<Rightarrow> Inl (UndefinedBehaviour, s)
                 | Some n \<Rightarrow>
                     (let nextThread2 =
                            (if priority (threads s n) = priority (threads s self)
                             then Some n else None);
                          parkedThread = hd (parkedQueue s)
                      in if priority (threads s parkedThread) < priority (threads s self)
                            \<or> (priority (threads s parkedThread) = priority (threads s self)
                                \<and> (case nextThread2 of
                                      None \<Rightarrow> True
                                    | Some n2 \<Rightarrow>
                                        timesliceStart (threads s parkedThread)
                                          < timesliceStart (threads s n2)))
                         then Inr (emit (upd_thread s parkedThread
                                           (\<lambda>t. t\<lparr>coreId := coreId (threads s self)\<rparr>))
                                     NotifyParked)
                         else Inr s)))
      else Inr s)"

section \<open>Guest mutexes and condition variables (\<open>KProcess\<close>)\<close>

text \<open>
  A \<open>WaitStatus\<close> is made by \<open>std::make_shared<WaitStatus>(priority, pid)\<close> with its flag
  unset. The wait lists hold shared pointers to them: addresses into the store
  \<open>statuses\<close>, of which \<open>allocated\<close> are in use. The struct is declared in a header that
  is not among the files at hand; its priority is taken to be a \<open>u8\<close> like the thread's,
  its pid a \<open>pid_t\<close>.
\<close>

type_synonym status_ptr = nat

record WaitStatus =
  waitPriority :: u8
  waitPid :: int
  flag :: bool

text \<open>What \<open>KProcess\<close> reads of \<open>state.thread\<close>: its handle, its pid and its priority.\<close>

record GuestThread =
  handle :: u32
  pid :: int
  threadPriority :: u8

text \<open>
  \<open>memory\<close> is guest memory as \<open>ReadMemory<u32>\<close> and \<open>WriteMemory<u32>\<close> see it: the
  \<open>u32\<close> at an address. \<open>mutexes\<close> and \<open>conditionals\<close> map an address to its wait list.
\<close>

record KProcess =
  memory :: "u64 \<Rightarrow> u32"
  mutexes :: "u64 \<rightharpoonup> status_ptr list"
  conditionals :: "u64 \<rightharpoonup> status_ptr list"
  statuses :: "status_ptr \<Rightarrow> WaitStatus"
  allocated :: nat

text \<open>\<open>mutexes[address]\<close>: the list at the address, an empty one when there is none yet.\<close>

definition waiters_at :: "(u64 \<rightharpoonup> status_ptr list) \<Rightarrow> u64 \<Rightarrow> status_ptr list" where
  "waiters_at m address = (case m address of None \<Rightarrow> [] | Some w \<Rightarrow> w)"

definition make_shared :: "KProcess \<Rightarrow> u8 \<Rightarrow> int \<Rightarrow> status_ptr \<times> KProcess" where
  "make_shared p prio thread_pid =
     (allocated p,
      p\<lparr>statuses := (statuses p)(allocated p :=
             \<lparr>waitPriority = prio, waitPid = thread_pid, flag = False\<rparr>),
        allocated := Suc (allocated p)\<rparr>)"

text \<open>
  The insertion loop of \<open>MutexLock\<close> and \<open>ConditionalVariableWait\<close>: it steps over every
  record with \<open>(*it)->priority >= state.thread->priority\<close> and inserts in front of the
  first other one, or at the end.
\<close>

fun insert_waiter ::
  "(status_ptr \<Rightarrow> WaitStatus) \<Rightarrow> u8 \<Rightarrow> status_ptr \<Rightarrow> status_ptr list \<Rightarrow> status_ptr list" where
  "insert_waiter h prio status [] = [status]"
| "insert_waiter h prio status (it # rest) =
     (if waitPriority (h it) \<ge> prio then it # insert_waiter h prio status rest
      else status # it # rest)"

text \<open>The removal loop: the first record with the caller's pid is erased.\<close>

fun erase_pid :: "(status_ptr \<Rightarrow> WaitStatus) \<Rightarrow> int \<Rightarrow> status_ptr list \<Rightarrow> status_ptr list" where
  "erase_pid h thread_pid [] = []"
| "erase_pid h thread_pid (it # rest) =
     (if waitPid (h it) = thread_pid then rest else it # erase_pid h thread_pid rest)"

text \<open>
  A blocked call spins on its record's flag with no lock held. What the other threads do
  meanwhile is \<open>env\<close>: \<open>env i\<close> is their effect on the process before the \<open>i\<close>-th read
  of the flag. A spin that never ends is \<open>None\<close>.

  \<open>while (!status->flag);\<close> of \<open>MutexLock\<close>:
\<close>

partial_function (option) wait_flag ::
  "(nat \<Rightarrow> KProcess \<Rightarrow> KProcess) \<Rightarrow> status_ptr \<Rightarrow> nat \<Rightarrow> KProcess \<Rightarrow> KProcess option" where
  "wait_flag env status i p =
     (if flag (statuses (env i p) status) then Some (env i p)
      else wait_flag env status (Suc i) (env i p))"

text \<open>
  The loop of \<open>ConditionalVariableWait\<close>,
  \<open>while (!status->flag) { if ((GetCurrTimeNs() - start) >= timeout) timedOut = true; }\<close>.
  The clock was read once for \<open>start\<close>, so iteration \<open>i\<close> reads \<open>GetCurrTimeNs (Suc i)\<close>.
\<close>

partial_function (option) wait_signal ::
  "(nat \<Rightarrow> KProcess \<Rightarrow> KProcess) \<Rightarrow> (nat \<Rightarrow> u64) \<Rightarrow> status_ptr \<Rightarrow> u64 \<Rightarrow> u64 \<Rightarrow> nat \<Rightarrow> bool
     \<Rightarrow> KProcess \<Rightarrow> (bool \<times> KProcess) option" where
  "wait_signal env GetCurrTimeNs status start timeout i timedOut p =
     (if flag (statuses (env i p) status) then Some (timedOut, env i p)
      else wait_signal env GetCurrTimeNs status start timeout (Suc i)
             (if GetCurrTimeNs (Suc i) - start \<ge> timeout then True else timedOut)
             (env i p))"

text \<open>
  \<open>KProcess::MutexLock(address, owner, alwaysLock)\<close>, called by \<open>thread\<close>, in three
  parts: up to the busy wait (the call has returned, or it is blocked on its new record),
  the busy wait, and the rest. \<open>constant::MtxOwnerMask\<close> is declared outside the files at
  hand and is a parameter.
\<close>

datatype entry = Returned KProcess | Blocked status_ptr KProcess

definition MutexLock_enqueue ::
  "u32 \<Rightarrow> KProcess \<Rightarrow> GuestThread \<Rightarrow> u64 \<Rightarrow> u32 \<Rightarrow> bool \<Rightarrow> entry" where
  "MutexLock_enqueue MtxOwnerMask p thread address owner alwaysLock =
     (let mtxVal = memory p address in
      if alwaysLock \<and> mtxVal = 0
      then Returned (p\<lparr>memory := (memory p)(address := MtxOwnerMask AND handle thread)\<rparr>)
      else if \<not> alwaysLock \<and> mtxVal \<noteq> (owner OR NOT MtxOwnerMask) then Returned p
      else
        (let mtxWaiters = waiters_at (mutexes p) address;
             (status, p1) = make_shared p (threadPriority thread) (pid thread)
         in Blocked status
              (p1\<lparr>mutexes := (mutexes p1)(address \<mapsto>
                     insert_waiter (statuses p1) (threadPriority thread) status mtxWaiters)\<rparr>)))"

definition MutexLock_resume :: "u32 \<Rightarrow> KProcess \<Rightarrow> GuestThread \<Rightarrow> u64 \<Rightarrow> KProcess" where
  "MutexLock_resume MtxOwnerMask p thread address =
     (let mtxWaiters = erase_pid (statuses p) (pid thread) (waiters_at (mutexes p) address);
          mtxVal = (MtxOwnerMask AND handle thread)
                   OR (if mtxWaiters = [] then 0 else NOT MtxOwnerMask)
      in p\<lparr>mutexes := (mutexes p)(address \<mapsto> mtxWaiters),
           memory := (memory p)(address := mtxVal)\<rparr>)"

definition MutexLock ::
  "u32 \<Rightarrow> (nat \<Rightarrow> KProcess \<Rightarrow> KProcess) \<Rightarrow> KProcess \<Rightarrow> GuestThread \<Rightarrow> u64 \<Rightarrow> u32 \<Rightarrow> bool
     \<Rightarrow> KProcess option" where
  "MutexLock MtxOwnerMask env p thread address owner alwaysLock =
     (case MutexLock_enqueue MtxOwnerMask p thread address owner alwaysLock of
        Returned p1 \<Rightarrow> Some p1
      | Blocked status p1 \<Rightarrow>
          (case wait_flag env status 0 p1 of
             None \<Rightarrow> None
           | Some p2 \<Rightarrow> Some (MutexLock_resume MtxOwnerMask p2 thread address)))"

text \<open>\<open>KProcess::MutexUnlock(address)\<close>, called by \<open>thread\<close>.\<close>

definition MutexUnlock :: "u32 \<Rightarrow> KProcess \<Rightarrow> GuestThread \<Rightarrow> u64 \<Rightarrow> bool \<times> KProcess" where
  "MutexUnlock MtxOwnerMask p thread address =
     (let mtxVal = memory p address in
      if (mtxVal AND MtxOwnerMask) \<noteq> handle thread then (False, p)
      else
        (let mtxWaiters = waiters_at (mutexes p) address;
             p1 = p\<lparr>mutexes := (mutexes p)(address \<mapsto> mtxWaiters)\<rparr>
         in if mtxWaiters = [] then (True, p1\<lparr>memory := (memory p1)(address := 0)\<rparr>)
            else (True, p1\<lparr>statuses := (statuses p1)(hd mtxWaiters :=
                                (statuses p1 (hd mtxWaiters))\<lparr>flag := True\<rparr>)\<rparr>)))"

text \<open>
  \<open>KProcess::ConditionalVariableWait(address, timeout)\<close>, called by \<open>thread\<close>, in the
  same three parts.
\<close>

definition ConditionalVariableWait_enqueue ::
  "KProcess \<Rightarrow> GuestThread \<Rightarrow> u64 \<Rightarrow> status_ptr \<times> KProcess" where
  "ConditionalVariableWait_enqueue p thread address =
     (let condWaiters = waiters_at (conditionals p) address;
          (status, p1) = make_shared p (threadPriority thread) (pid thread)
      in (status,
          p1\<lparr>conditionals := (conditionals p1)(address \<mapsto>
                insert_waiter (statuses p1) (threadPriority thread) status condWaiters)\<rparr>))"

definition ConditionalVariableWait_resume ::
  "KProcess \<Rightarrow> GuestThread \<Rightarrow> u64 \<Rightarrow> bool \<Rightarrow> bool \<times> KProcess" where
  "ConditionalVariableWait_resume p thread address timedOut =
     (\<not> timedOut,
      p\<lparr>conditionals := (conditionals p)(address \<mapsto>
            erase_pid (statuses p) (pid thread) (waiters_at (conditionals p) address))\<rparr>)"

definition ConditionalVariableWait ::
  "(nat \<Rightarrow> KProcess \<Rightarrow> KProcess) \<Rightarrow> (nat \<Rightarrow> u64) \<Rightarrow> KProcess \<Rightarrow> GuestThread \<Rightarrow> u64 \<Rightarrow> u64
     \<Rightarrow> (bool \<times> KProcess) option" where
  "ConditionalVariableWait env GetCurrTimeNs p thread address timeout =
     (let (status, p1) = ConditionalVariableWait_enqueue p thread address;
          start = GetCurrTimeNs 0
      in case wait_signal env GetCurrTimeNs status start timeout 0 False p1 of
           None \<Rightarrow> None
         | Some (timedOut, p2) \<Rightarrow>
             Some (ConditionalVariableWait_resume p2 thread address timedOut))"

text \<open>The loop \<open>for (i = 0; i < amount; ++i) condWaiters[i]->flag = true\<close>.\<close>

fun set_flags :: "status_ptr list \<Rightarrow> (status_ptr \<Rightarrow> WaitStatus) \<Rightarrow> (status_ptr \<Rightarrow> WaitStatus)" where
  "set_flags [] h = h"
| "set_flags (w # ws) h = set_flags ws (h(w := (h w)\<lparr>flag := True\<rparr>))"

text \<open>\<open>KProcess::ConditionalVariableSignal(address, amount)\<close>.\<close>

definition ConditionalVariableSignal :: "KProcess \<Rightarrow> u64 \<Rightarrow> u64 \<Rightarrow> KProcess" where
  "ConditionalVariableSignal p address amount =
     (let condWaiters = waiters_at (conditionals p) address;
          amount2 = min (length condWaiters) (unat amount)
      in p\<lparr>conditionals := (conditionals p)(address \<mapsto> condWaiters),
           statuses := set_flags (take amount2 condWaiters) (statuses p)\<rparr>)"

section \<open>Running the operations\<close>

text \<open>
  Operations in sequence: the next one runs on the state the previous one returned, and an
  error ends the sequence.
\<close>

definition and_then :: "'a result \<Rightarrow> ('a \<Rightarrow> 'b result) \<Rightarrow> 'b result" where
  "and_then r f = (case r of Inl e \<Rightarrow> Inl e | Inr x \<Rightarrow> f x)"

definition queue_after :: "Scheduler result \<Rightarrow> nat \<Rightarrow> thread_ptr list option" where
  "queue_after r ci = (case r of Inl e \<Rightarrow> None | Inr s \<Rightarrow> Some (queue (cores s ! ci)))"

text \<open>A thread as its constructor leaves it, and a scheduler that has done nothing yet.\<close>

definition new_thread :: "u8 \<Rightarrow> i8 \<Rightarrow> bool list \<Rightarrow> KThread" where
  "new_thread p c bits =
     \<lparr>priority = p, coreId = c, affinityMask = bits, timesliceStart = 0,
      averageTimeslice = 0, isPreempted = False, pendingYield = False, forceYield = False\<rparr>"

definition boot :: "CoreContext list \<Rightarrow> (thread_ptr \<Rightarrow> KThread) \<Rightarrow> Scheduler" where
  "boot cs ts =
     \<lparr>cores = cs, parkedQueue = [], threads = ts, YieldPending = (\<lambda>_. False),
      ticks = (\<lambda>n. 1000 * of_nat n), ticksRead = 0, events = []\<rparr>"

text \<open>
  The scenario of the specification: one core with preemption threshold 1 and an empty
  queue; thread 0 is A (priority 10), thread 1 is B and thread 2 is C (priority 5 both).
\<close>

definition scenario_ABC :: Scheduler where
  "scenario_ABC =
     boot [\<lparr>id' = 0, preemptionPriority = 1, queue = []\<rparr>]
       (\<lambda>t. new_thread (if t = 0 then 10 else 5) 0 [True])"

text \<open>
  The head of a queue after its priority has changed: A (thread 0) now has priority 10 and
  B (thread 1, priority 5) stands right behind it.
\<close>

definition scenario_head_outranked :: Scheduler where
  "scenario_head_outranked =
     boot [\<lparr>id' = 0, preemptionPriority = 59, queue = [0, 1]\<rparr>]
       (\<lambda>t. new_thread (if t = 0 then 10 else 5) 0 [True])"

text \<open>
  A thread alone in its queue whose priority has become the preemption threshold of its
  core, its timer not armed.
\<close>

definition scenario_head_alone :: Scheduler where
  "scenario_head_alone =
     boot [\<lparr>id' = 0, preemptionPriority = 10, queue = [0]\<rparr>] (\<lambda>t. new_thread 10 0 [True])"

text \<open>
  Thread 1 (priority 30) is parked; the caller, thread 0 (priority 44), is the only thread
  in the queue of its core.
\<close>

definition scenario_parked :: Scheduler where
  "scenario_parked =
     (boot [\<lparr>id' = 0, preemptionPriority = 59, queue = [0]\<rparr>]
        (\<lambda>t. new_thread (if t = 0 then 44 else 30) 0 [True]))\<lparr>parkedQueue := [1]\<rparr>"

text \<open>
  The queue [B, C, A] with B preempted and told to yield, and A marked as forced to yield.
\<close>

definition scenario_preempted :: Scheduler where
  "scenario_preempted =
     boot [\<lparr>id' = 0, preemptionPriority = 5, queue = [1, 2, 0]\<rparr>]
       (\<lambda>t. (new_thread (if t = 0 then 10 else 5) 0 [True])
               \<lparr>isPreempted := (t = 1), pendingYield := (t = 1), forceYield := (t = 0)\<rparr>)"

text \<open>A process with nobody waiting, a guest thread, and what a blocked call left behind.\<close>

definition new_process :: "(u64 \<Rightarrow> u32) \<Rightarrow> KProcess" where
  "new_process mem =
     \<lparr>memory = mem, mutexes = Map.empty, conditionals = Map.empty,
      statuses = (\<lambda>_. \<lparr>waitPriority = 0, waitPid = 0, flag = False\<rparr>), allocated = 0\<rparr>"

definition guest :: "u32 \<Rightarrow> int \<Rightarrow> u8 \<Rightarrow> GuestThread" where
  "guest h i pr = \<lparr>handle = h, pid = i, threadPriority = pr\<rparr>"

definition blocked_in :: "entry \<Rightarrow> KProcess" where
  "blocked_in e = (case e of Returned p \<Rightarrow> p | Blocked status p \<Rightarrow> p)"

definition flags_of :: "KProcess \<Rightarrow> status_ptr list \<Rightarrow> (u8 \<times> bool) list" where
  "flags_of p ws = map (\<lambda>w. (waitPriority (statuses p w), flag (statuses p w))) ws"

text \<open>
  The mutex at \<open>0x1000\<close> is held by the thread with handle 1 and has its waiters bit
  (bit 30, with \<open>MtxOwnerMask = 0xBFFFFFFF\<close>) set. Three threads of priority 5, 10 and 15
  call \<open>MutexLock\<close> in that order and block; their records are 0, 1 and 2.
\<close>

definition scenario_mutex :: KProcess where
  "scenario_mutex =
     blocked_in (MutexLock_enqueue 0xBFFFFFFF
       (blocked_in (MutexLock_enqueue 0xBFFFFFFF
          (blocked_in (MutexLock_enqueue 0xBFFFFFFF
             (new_process (\<lambda>a. if a = 0x1000 then 0x40000001 else 0))
             (guest 2 2 5) 0x1000 1 False))
          (guest 3 3 10) 0x1000 1 False))
       (guest 4 4 15) 0x1000 1 False)"

text \<open>The mutex at \<open>0x1000\<close> held by the thread with handle 1, nobody waiting.\<close>

definition scenario_owned :: KProcess where
  "scenario_owned = new_process (\<lambda>a. if a = 0x1000 then 1 else 0)"

text \<open>
  Three threads of priority 3, 7 and 7 call \<open>ConditionalVariableWait\<close> on \<open>0x2000\<close> in
  that order; their records are 0, 1 and 2.
\<close>

definition scenario_cond :: KProcess where
  "scenario_cond =
     snd (ConditionalVariableWait_enqueue
       (snd (ConditionalVariableWait_enqueue
          (snd (ConditionalVariableWait_enqueue (new_process (\<lambda>a. 0)) (guest 2 2 3) 0x2000))
          (guest 3 3 7) 0x2000))
       (guest 4 4 7) 0x2000)"

text \<open>
  \<open>affinityMask.test(coreId)\<close> holds: the thread's core is a bit of its mask, and the bit
  is set.
\<close>

definition in_affinity :: "KThread \<Rightarrow> bool" where
  "in_affinity t =
     (0 \<le> sint (coreId t) \<and> nat (sint (coreId t)) < length (affinityMask t)
      \<and> affinityMask t ! nat (sint (coreId t)))"

text \<open>
  The state a call leaves behind, when it returns and when it throws; after undefined
  behaviour there is none.
\<close>

definition state_reached :: "(nat \<times> Scheduler) result \<Rightarrow> Scheduler option" where
  "state_reached r =
     (case r of
        Inr (c, s) \<Rightarrow> Some s
      | Inl (e, s) \<Rightarrow> if e = UndefinedBehaviour then None else Some s)"

definition state_of :: "Scheduler result \<Rightarrow> Scheduler" where
  "state_of r = (case r of Inl (e, s) \<Rightarrow> s | Inr s \<Rightarrow> s)"

text \<open>No thread has changed core or mask, and no core its id.\<close>

definition placement_kept :: "Scheduler \<Rightarrow> Scheduler \<Rightarrow> bool" where
  "placement_kept s s' =
     ((\<forall>t. coreId (threads s' t) = coreId (threads s t)
           \<and> affinityMask (threads s' t) = affinityMask (threads s t))
      \<and> map id' (cores s') = map id' (cores s))"

text \<open>The test \<open>thread->affinityMask.test(candidateCore.id)\<close> succeeds.\<close>

definition passes :: "Scheduler \<Rightarrow> thread_ptr \<Rightarrow> CoreContext \<Rightarrow> bool" where
  "passes s thread c =
     (unat (id' c) < length (affinityMask (threads s thread))
      \<and> affinityMask (threads s thread) ! unat (id' c))"

text \<open>
  What the loop over the cores guarantees of its choice: it is the one it started with, or
  a core of the list whose id passed the test.
\<close>

definition chosen_ok ::
  "Scheduler \<Rightarrow> thread_ptr \<Rightarrow> CoreContext list \<Rightarrow> nat \<Rightarrow> nat option \<Rightarrow> nat option \<Rightarrow> bool" where
  "chosen_ok s thread cs i opt res =
     (case res of
        None \<Rightarrow> True
      | Some oc \<Rightarrow>
          opt = Some oc \<or> (i \<le> oc \<and> oc < i + length cs \<and> passes s thread (cs ! (oc - i))))"

definition cores_result_ok ::
  "Scheduler \<Rightarrow> thread_ptr \<Rightarrow> CoreContext list \<Rightarrow> nat \<Rightarrow> nat option
     \<Rightarrow> (nat option \<times> Scheduler) result \<Rightarrow> bool" where
  "cores_result_ok s thread cs i opt r =
     (case r of
        Inl (e, s1) \<Rightarrow> e = OutOfRange \<and> threads s1 = threads s \<and> cores s1 = cores s
      | Inr (res, s1) \<Rightarrow>
          threads s1 = threads s \<and> cores s1 = cores s \<and> chosen_ok s thread cs i opt res)"

text \<open>
  Two cores. Thread 1 (priority 5) runs on core 0; thread 0 (priority 10) is assigned to
  core 0 and may run on both cores; core 1 is idle.
\<close>

definition scenario_two_cores :: Scheduler where
  "scenario_two_cores =
     boot [\<lparr>id' = 0, preemptionPriority = 59, queue = [1]\<rparr>,
           \<lparr>id' = 1, preemptionPriority = 59, queue = []\<rparr>]
       (\<lambda>t. new_thread (if t = 0 then 10 else 5) 0
               (if t = 0 then [True, True] else [True, False]))"

text \<open>
  The priority of a thread as a number, a queue in non-decreasing order of it, and a queue
  with a thread put behind every thread of the same or a numerically lower priority.
\<close>

definition prio_of :: "(thread_ptr \<Rightarrow> KThread) \<Rightarrow> thread_ptr \<Rightarrow> nat" where
  "prio_of ts t = unat (priority (ts t))"

definition queue_sorted :: "(thread_ptr \<Rightarrow> KThread) \<Rightarrow> thread_ptr list \<Rightarrow> bool" where
  "queue_sorted ts q = sorted (map (prio_of ts) q)"

definition placed ::
  "(thread_ptr \<Rightarrow> KThread) \<Rightarrow> thread_ptr list \<Rightarrow> thread_ptr \<Rightarrow> thread_ptr list" where
  "placed ts q t =
     takeWhile (\<lambda>x. prio_of ts x \<le> prio_of ts t) q
       @ t # dropWhile (\<lambda>x. prio_of ts x \<le> prio_of ts t) q"

text \<open>
  What an operation on the queue of core \<open>ci\<close> leaves alone: the cores are what they were
  but for that queue, which is now \<open>q'\<close>, and every thread has the priority and the core
  it had.
\<close>

definition queue_replaced :: "Scheduler \<Rightarrow> Scheduler \<Rightarrow> nat \<Rightarrow> thread_ptr list \<Rightarrow> bool" where
  "queue_replaced s s' ci q' =
     (cores s' = (cores s)[ci := (cores s ! ci)\<lparr>queue := q'\<rparr>]
      \<and> (\<forall>x. priority (threads s' x) = priority (threads s x)
             \<and> coreId (threads s' x) = coreId (threads s x)))"

text \<open>The queue [B, C, A] of the scenario, as the three insertions leave it.\<close>

definition scenario_BCA :: Scheduler where
  "scenario_BCA =
     boot [\<lparr>id' = 0, preemptionPriority = 1, queue = [1, 2, 0]\<rparr>]
       (\<lambda>t. new_thread (if t = 0 then 10 else 5) 0 [True])"

text \<open>
  Another thread calls \<open>ConditionalVariableSignal(address, 1)\<close> just before the
  waiter's \<open>k\<close>-th read of its flag, and nothing else happens.
\<close>

definition signal_at :: "nat \<Rightarrow> u64 \<Rightarrow> nat \<Rightarrow> KProcess \<Rightarrow> KProcess" where
  "signal_at k address i p = (if i = k then ConditionalVariableSignal p address 1 else p)"

text \<open>A wait list in non-increasing order of the numeric priority of its records.\<close>

definition descending :: "(status_ptr \<Rightarrow> WaitStatus) \<Rightarrow> status_ptr list \<Rightarrow> bool" where
  "descending h ws = sorted_wrt (\<lambda>a b. waitPriority (h a) \<ge> waitPriority (h b)) ws"

lemmas scheduler_defs =
  InsertThread_def Rotate_def RemoveThread_def UpdatePriority_def WakeParkedThread_def
  cores_at_def upper_bound_def upper_bound_from.simps set_queue_def emit_def upd_thread_def
  splice_front_def insert_at_def erase_at_def IsHigherPriority_def
  update_averageTimeslice_def GetTimeTicks_def

lemmas scenario_defs = boot_def new_thread_def and_then_def queue_after_def

lemmas process_defs =
  MutexUnlock_def MutexLock_enqueue_def MutexLock_resume_def make_shared_def waiters_at_def
  ConditionalVariableSignal_def ConditionalVariableWait_enqueue_def
  ConditionalVariableWait_resume_def

lemmas process_scenario_defs = new_process_def guest_def blocked_in_def flags_of_def

section \<open>The literal scheduling scenario\<close>

text \<open>
  C5, as the specification states it, fails: after A, B and C have been inserted and B has
  called \<open>Rotate\<close> from the head, the queue is not [C, A, B].
\<close>

theorem rotate_scenario_counterexample:
  "\<not> (queue_after
         (and_then (and_then (InsertThread scenario_ABC 0 0) (\<lambda>s. InsertThread s 1 1))
            (\<lambda>s. InsertThread s 2 2)) 0 = Some [1, 2, 0]
      \<and> queue_after
         (and_then
            (and_then (and_then (InsertThread scenario_ABC 0 0) (\<lambda>s. InsertThread s 1 1))
               (\<lambda>s. InsertThread s 2 2))
            (\<lambda>s. Rotate s 1 True)) 0 = Some [2, 0, 1])"
  by (simp add: scheduler_defs scenario_defs scenario_ABC_def Let_def)

text \<open>
  C5, amended: whichever host threads \<open>a\<close>, \<open>b\<close> and \<open>c\<close> insert A, B and C, the queue
  is [B, C, A] after the three insertions, and [C, B, A] after B has called \<open>Rotate\<close>,
  cooperatively or not: B goes behind C, the last thread of its own priority, and stays in
  front of A.
\<close>

theorem rotate_scenario_amended:
  "queue_after
     (and_then (and_then (InsertThread scenario_ABC a 0) (\<lambda>s. InsertThread s b 1))
        (\<lambda>s. InsertThread s c 2)) 0 = Some [1, 2, 0]
   \<and> queue_after
     (and_then
        (and_then (and_then (InsertThread scenario_ABC a 0) (\<lambda>s. InsertThread s b 1))
           (\<lambda>s. InsertThread s c 2))
        (\<lambda>s. Rotate s 1 cooperative)) 0 = Some [2, 1, 0]"
  apply (cases "a = 0"; cases "b = 0"; cases "b = 1"; cases "c = 2")
  apply (simp_all add: scheduler_defs scenario_defs scenario_ABC_def Let_def)
  done

section \<open>Rotate and the yield flags\<close>

text \<open>
  C10: a call of \<open>Rotate\<close> that returns leaves the caller's \<open>pendingYield\<close>,
  \<open>forceYield\<close> and \<open>isPreempted\<close> all false, whatever \<open>cooperative\<close> is; and the call
  does return when the caller is at the head of the queue of its core, or is marked as
  forced to yield while that queue is not empty.
\<close>

theorem Rotate_clears_flags:
  "(\<forall>s'. Rotate s self cooperative = Inr s' \<longrightarrow>
       \<not> pendingYield (threads s' self) \<and> \<not> forceYield (threads s' self)
       \<and> \<not> isPreempted (threads s' self))
   \<and> (cores_at s (coreId (threads s self)) = Some ci \<and> queue (cores s ! ci) \<noteq> []
        \<and> (hd (queue (cores s ! ci)) = self \<or> forceYield (threads s self))
       \<longrightarrow> (\<exists>s'. Rotate s self cooperative = Inr s'))"
  by (auto simp: Rotate_def Let_def upd_thread_def split: option.splits if_splits sum.splits)

theorem Rotate_clears_flags_witness:
  "(\<exists>s'. Rotate scenario_preempted 1 False = Inr s'
       \<and> \<not> pendingYield (threads s' 1) \<and> \<not> forceYield (threads s' 1)
       \<and> \<not> isPreempted (threads s' 1))
   \<and> (\<exists>s'. Rotate scenario_preempted 0 True = Inr s'
       \<and> \<not> pendingYield (threads s' 0) \<and> \<not> forceYield (threads s' 0)
       \<and> \<not> isPreempted (threads s' 0))"
proof -
  have c: "cores_at scenario_preempted (coreId (threads scenario_preempted 1)) = Some 0"
    "cores_at scenario_preempted (coreId (threads scenario_preempted 0)) = Some 0"
    by (simp_all add: cores_at_def scenario_preempted_def scenario_defs)
  have q: "queue (cores scenario_preempted ! 0) \<noteq> []"
    "hd (queue (cores scenario_preempted ! 0)) = 1"
    "forceYield (threads scenario_preempted 0)"
    by (simp_all add: scenario_preempted_def scenario_defs)
  show ?thesis
    using Rotate_clears_flags [of scenario_preempted 1 False 0]
      Rotate_clears_flags [of scenario_preempted 0 True 0] c q
    by blast
qed

section \<open>UpdatePriority on the running thread\<close>

text \<open>
  C4 on the code: \<open>UpdatePriority\<close> of the thread at the head of its queue returns at once.
  With B (priority 5) right behind A (priority 10), A is sent no signal and its
  \<open>pendingYield\<close> stays unset; and a thread alone in its queue, at the preemption threshold
  of its core and not preempted, has no timer armed. In both cases the state is what it was.
\<close>

theorem UpdatePriority_head_scenario:
  "UpdatePriority scenario_head_outranked 0 = Inr scenario_head_outranked
   \<and> events scenario_head_outranked = []
   \<and> \<not> pendingYield (threads scenario_head_outranked 0)
   \<and> UpdatePriority scenario_head_alone 0 = Inr scenario_head_alone
   \<and> events scenario_head_alone = []
   \<and> \<not> isPreempted (threads scenario_head_alone 0)
   \<and> priority (threads scenario_head_alone 0) = preemptionPriority (cores scenario_head_alone ! 0)"
  by (simp add: scheduler_defs scenario_defs scenario_head_outranked_def scenario_head_alone_def)

text \<open>The same for every thread at the head of its queue.\<close>

lemma UpdatePriority_head_returns:
  assumes "cores_at s (coreId (threads s thread)) = Some ci"
    and "queue (cores s ! ci) \<noteq> []" and "hd (queue (cores s ! ci)) = thread"
  shows "UpdatePriority s thread = Inr s"
proof -
  from assms(2,3) have "find_index_of thread (queue (cores s ! ci)) = Some 0"
    by (cases "queue (cores s ! ci)") auto
  with assms(1) show ?thesis by (simp add: UpdatePriority_def Let_def)
qed

section \<open>Waking a parked thread\<close>

text \<open>
  C9 on the code: with a thread parked and the caller alone in the queue of its core,
  \<open>WakeParkedThread\<close> reads the priority of a next thread that does not exist.
\<close>

theorem WakeParkedThread_alone_scenario:
  "parkedQueue scenario_parked \<noteq> []
   \<and> WakeParkedThread scenario_parked 0 = Inl (UndefinedBehaviour, scenario_parked)"
  by (simp add: scheduler_defs scenario_defs scenario_parked_def)

text \<open>
  With a second thread in the caller's queue the call does return, and it wakes the parked
  thread exactly under the condition the source spells out.
\<close>

lemma WakeParkedThread_with_next:
  assumes "parkedQueue s \<noteq> []"
    and "cores_at s (coreId (threads s self)) = Some ci"
    and "1 < length (queue (cores s ! ci))"
  shows "WakeParkedThread s self =
     Inr (if priority (threads s (hd (parkedQueue s))) < priority (threads s self)
             \<or> (priority (threads s (hd (parkedQueue s))) = priority (threads s self)
                 \<and> (priority (threads s (queue (cores s ! ci) ! 1)) \<noteq> priority (threads s self)
                     \<or> timesliceStart (threads s (hd (parkedQueue s)))
                          < timesliceStart (threads s (queue (cores s ! ci) ! 1))))
          then emit (upd_thread s (hd (parkedQueue s))
                       (\<lambda>t. t\<lparr>coreId := coreId (threads s self)\<rparr>)) NotifyParked
          else s)"
  using assms by (auto simp: WakeParkedThread_def Let_def)

section \<open>Mutexes\<close>

text \<open>
  C7: \<open>MutexUnlock\<close> returns true exactly when the owner bits of the mutex word are the
  caller's handle; when it returns false the process (guest memory, wait lists and wait
  records) is what it was; when it returns true and nobody waits on the address, the mutex
  word is 0 afterwards.
\<close>

theorem MutexUnlock_owner_only:
  "(fst (MutexUnlock MtxOwnerMask p thread address)
      \<longleftrightarrow> (memory p address AND MtxOwnerMask) = handle thread)
   \<and> (\<not> fst (MutexUnlock MtxOwnerMask p thread address)
        \<longrightarrow> snd (MutexUnlock MtxOwnerMask p thread address) = p)
   \<and> (fst (MutexUnlock MtxOwnerMask p thread address) \<and> waiters_at (mutexes p) address = []
        \<longrightarrow> memory (snd (MutexUnlock MtxOwnerMask p thread address)) address = 0)"
  by (simp add: MutexUnlock_def Let_def)

theorem MutexUnlock_owner_only_witness:
  "\<not> fst (MutexUnlock 0xBFFFFFFF scenario_owned (guest 2 2 44) 0x1000)
   \<and> snd (MutexUnlock 0xBFFFFFFF scenario_owned (guest 2 2 44) 0x1000) = scenario_owned
   \<and> fst (MutexUnlock 0xBFFFFFFF scenario_owned (guest 1 1 44) 0x1000)
   \<and> waiters_at (mutexes scenario_owned) 0x1000 = []
   \<and> memory (snd (MutexUnlock 0xBFFFFFFF scenario_owned (guest 1 1 44) 0x1000)) 0x1000 = 0"
  using MutexUnlock_owner_only [of "0xBFFFFFFF" scenario_owned "guest 2 2 44" "0x1000"]
    MutexUnlock_owner_only [of "0xBFFFFFFF" scenario_owned "guest 1 1 44" "0x1000"]
  by (simp add: scenario_owned_def new_process_def guest_def waiters_at_def)

text \<open>
  C2 on the code: with waiters of priority 5, 10 and 15, arrived in that order, the wait
  list is [15, 10, 5]. \<open>MutexUnlock\<close> by the owner returns true and sets the flag of the
  priority-15 record only; the priority-5 record is not signaled. The mutex word is left
  as it was.
\<close>

theorem MutexUnlock_waiters_scenario:
  "mutexes scenario_mutex 0x1000 = Some [2, 1, 0]
   \<and> flags_of scenario_mutex [0, 1, 2] = [(5, False), (10, False), (15, False)]
   \<and> fst (MutexUnlock 0xBFFFFFFF scenario_mutex (guest 1 1 44) 0x1000)
   \<and> flags_of (snd (MutexUnlock 0xBFFFFFFF scenario_mutex (guest 1 1 44) 0x1000)) [0, 1, 2]
        = [(5, False), (10, False), (15, True)]
   \<and> memory (snd (MutexUnlock 0xBFFFFFFF scenario_mutex (guest 1 1 44) 0x1000)) 0x1000
        = 0x40000001"
  by (simp add: process_defs process_scenario_defs scenario_mutex_def)

text \<open>
  In general: the insertion loop keeps a wait list in non-increasing order of numeric
  priority, and \<open>MutexUnlock\<close> by the owner flags the record at its front.
\<close>

lemma set_insert_waiter: "set (insert_waiter h prio status ws) = insert status (set ws)"
  by (induction ws) auto

lemma insert_waiter_descending:
  assumes "descending h ws" and "waitPriority (h status) = prio"
  shows "descending h (insert_waiter h prio status ws)"
  using assms(1)
proof (induction ws)
  case Nil
  then show ?case by (simp add: descending_def)
next
  case (Cons it rest)
  from Cons.prems have rest: "descending h rest"
    and ge: "\<forall>x\<in>set rest. waitPriority (h it) \<ge> waitPriority (h x)"
    by (simp_all add: descending_def)
  show ?case
  proof (cases "waitPriority (h it) \<ge> prio")
    case True
    with ge assms(2) have "\<forall>x\<in>set (insert_waiter h prio status rest).
        waitPriority (h it) \<ge> waitPriority (h x)"
      by (simp add: set_insert_waiter)
    with Cons.IH [OF rest] True show ?thesis by (simp add: descending_def)
  next
    case False
    then have "waitPriority (h it) \<le> prio" by simp
    with ge have "\<forall>x\<in>set (it # rest). prio \<ge> waitPriority (h x)" by auto
    with Cons.prems False assms(2) show ?thesis by (simp add: descending_def)
  qed
qed

lemma MutexUnlock_signals_front:
  assumes "(memory p address AND MtxOwnerMask) = handle thread"
    and "waiters_at (mutexes p) address = w # ws"
  shows "MutexUnlock MtxOwnerMask p thread address =
           (True, p\<lparr>mutexes := (mutexes p)(address \<mapsto> w # ws),
                     statuses := (statuses p)(w := (statuses p w)\<lparr>flag := True\<rparr>)\<rparr>)"
  using assms by (simp add: MutexUnlock_def Let_def)


section \<open>Condition variables\<close>

text \<open>
  C6 on the code: with waiters of priority 3, 7 and 7, arrived in that order, the wait
  list is [7, 7, 3]. \<open>ConditionalVariableSignal\<close> with amount 1 sets the flag of the first
  priority-7 record; the priority-3 record is not signaled. All three stay queued.
\<close>

theorem ConditionalVariableSignal_scenario:
  "conditionals scenario_cond 0x2000 = Some [1, 2, 0]
   \<and> flags_of scenario_cond [0, 1, 2] = [(3, False), (7, False), (7, False)]
   \<and> flags_of (ConditionalVariableSignal scenario_cond 0x2000 1) [0, 1, 2]
        = [(3, False), (7, True), (7, False)]
   \<and> conditionals (ConditionalVariableSignal scenario_cond 0x2000 1) 0x2000 = Some [1, 2, 0]"
  by (simp add: process_defs process_scenario_defs scenario_cond_def)

lemma wait_signal_returns_flag:
  assumes "wait_signal env clk status start timeout i timedOut p = Some y"
    and "\<And>i p. flag (statuses (env i p) status) = flag (statuses p status)"
  shows "flag (statuses p status)"
proof -
  have "(\<forall>i p. flag (statuses (env i p) status) = flag (statuses p status))
          \<longrightarrow> flag (statuses p status)"
  proof (rule wait_signal.raw_induct
      [where P = "\<lambda>env clk status start timeout i timedOut p y.
         (\<forall>i p. flag (statuses (env i p) status) = flag (statuses p status))
           \<longrightarrow> flag (statuses p status)", OF _ assms(1)])
    fix w env clk status start timeout i timedOut p y
    assume ih: "\<And>env clk status start timeout i timedOut p y.
        w env clk status start timeout i timedOut p = Some y \<Longrightarrow>
        (\<forall>i p. flag (statuses (env i p) status) = flag (statuses p status))
          \<longrightarrow> flag (statuses p status)"
      and step: "(if flag (statuses (env i p) status) then Some (timedOut, env i p)
          else w env clk status start timeout (Suc i)
                 (if timeout \<le> clk (Suc i) - start then True else timedOut) (env i p)) = Some y"
    show "(\<forall>i p. flag (statuses (env i p) status) = flag (statuses p status))
          \<longrightarrow> flag (statuses p status)"
    proof
      assume quiet: "\<forall>i p. flag (statuses (env i p) status) = flag (statuses p status)"
      show "flag (statuses p status)"
      proof (rule ccontr)
        assume unset: "\<not> flag (statuses p status)"
        with quiet have "\<not> flag (statuses (env i p) status)" by simp
        with step have "w env clk status start timeout (Suc i)
                 (if timeout \<le> clk (Suc i) - start then True else timedOut) (env i p) = Some y"
          by simp
        from ih [OF this] quiet have "flag (statuses (env i p) status)" by blast
        with quiet unset show False by simp
      qed
    qed
  qed
  with assms(2) show ?thesis by blast
qed

lemma wait_signal_never:
  assumes "\<And>i p. flag (statuses (env i p) status) = flag (statuses p status)"
    and "\<not> flag (statuses p status)"
  shows "wait_signal env clk status start timeout i timedOut p = None"
proof (cases "wait_signal env clk status start timeout i timedOut p")
  case None
  then show ?thesis .
next
  case (Some y)
  from wait_signal_returns_flag [OF Some assms(1)] assms(2) show ?thesis by simp
qed

text \<open>
  C3 on the code: a thread waits on \<open>0x2000\<close> with a timeout of 5000 ns, the clock
  advances by 1000 ns at every reading, and no other thread ever signals. The timeout
  elapses at the fifth reading, and the call never returns.
\<close>

theorem ConditionalVariableWait_timeout_scenario:
  "ConditionalVariableWait (\<lambda>i p. p) (\<lambda>n. 1000 * of_nat n) (new_process (\<lambda>a. 0))
     (guest 2 2 3) 0x2000 5000 = None"
  by (simp add: ConditionalVariableWait_def ConditionalVariableWait_enqueue_def make_shared_def
      new_process_def guest_def waiters_at_def wait_signal_never)

text \<open>
  When another thread does signal, before the waiter's third read of its flag, the call
  returns then and its record is gone from the list: with true when the timeout (5000 ns)
  has not elapsed by then, with false when it (1000 ns) has.
\<close>

lemma wait_signal_now:
  "flag (statuses (env i p) status)
   \<Longrightarrow> wait_signal env clk status start timeout i timedOut p = Some (timedOut, env i p)"
  by (subst wait_signal.simps) simp

lemma wait_signal_later:
  "\<not> flag (statuses (env i p) status)
   \<Longrightarrow> wait_signal env clk status start timeout i timedOut p
       = wait_signal env clk status start timeout (Suc i)
           (if clk (Suc i) - start \<ge> timeout then True else timedOut) (env i p)"
  by (subst wait_signal.simps) simp

lemma ConditionalVariableWait_signaled_scenario:
  "map_option (\<lambda>(r, p). (r, conditionals p 0x2000))
     (ConditionalVariableWait (signal_at 2 0x2000) (\<lambda>n. 1000 * of_nat n) (new_process (\<lambda>a. 0))
        (guest 2 2 3) 0x2000 5000) = Some (True, Some [])"
  "map_option (\<lambda>(r, p). (r, conditionals p 0x2000))
     (ConditionalVariableWait (signal_at 2 0x2000) (\<lambda>n. 1000 * of_nat n) (new_process (\<lambda>a. 0))
        (guest 2 2 3) 0x2000 1000) = Some (False, Some [])"
  by (simp_all add: ConditionalVariableWait_def process_defs process_scenario_defs
      signal_at_def wait_signal_now wait_signal_later Let_def)


section \<open>Load balancing and the affinity mask\<close>

lemma map_id_set_queue: "map id' ((cs :: CoreContext list)[ci := (cs ! ci)\<lparr>queue := q\<rparr>]) = map id' cs"
  by (cases "ci < length cs") (simp_all add: map_update list_update_same_conv list_update_beyond)

lemma placement_kept_refl: "placement_kept s s"
  by (simp add: placement_kept_def)

lemma InsertThread_placement: "placement_kept s (state_of (InsertThread s self thread))"
  by (simp add: InsertThread_def state_of_def placement_kept_def set_queue_def emit_def
      upd_thread_def Let_def map_id_set_queue split: option.splits)

lemma update_averageTimeslice_placement: "placement_kept s (update_averageTimeslice s t)"
  by (simp add: update_averageTimeslice_def GetTimeTicks_def placement_kept_def upd_thread_def)

lemma RemoveThread_placement: "placement_kept s (state_of (RemoveThread s self))"
  using update_averageTimeslice_placement
  by (simp add: RemoveThread_def state_of_def placement_kept_def set_queue_def emit_def
      upd_thread_def Let_def map_id_set_queue update_averageTimeslice_def GetTimeTicks_def split: option.splits)

lemma running_estimate_frame:
  "running_estimate s rt = (x, s1) \<Longrightarrow> threads s1 = threads s \<and> cores s1 = cores s"
  by (auto simp: running_estimate_def GetTimeTicks_def Let_def split: if_splits)

lemma core_timeslice_frame:
  "core_timeslice s thread c = (x, s1) \<Longrightarrow> threads s1 = threads s \<and> cores s1 = cores s"
  by (auto simp: core_timeslice_def Let_def split: list.splits prod.splits dest: running_estimate_frame)

lemma chosen_ok_step:
  assumes "chosen_ok s1 thread cs (Suc i) opt' res" and "threads s1 = threads s"
    and "opt' = opt \<or> (opt' = Some i \<and> passes s thread c)"
  shows "chosen_ok s thread (c # cs) i opt res"
  using assms by (auto simp: chosen_ok_def passes_def nth_Cons' split: option.splits)

lemma cores_result_ok_step:
  assumes "cores_result_ok s1 thread cs (Suc i) opt' r" and "threads s1 = threads s"
    and "cores s1 = cores s"
    and "opt' = opt \<or> (opt' = Some i \<and> passes s thread c)"
  shows "cores_result_ok s thread (c # cs) i opt r"
  using assms chosen_ok_step [of s1 thread cs i opt' _ s opt c]
  by (auto simp: cores_result_ok_def split: sum.splits prod.splits)

lemma LoadBalance_cores_frame:
  "cores_result_ok s thread cs i opt (LoadBalance_cores s thread cur cs i opt minT)"
proof (induction cs arbitrary: s i opt minT)
  case Nil
  then show ?case by (simp add: cores_result_ok_def chosen_ok_def split: option.splits)
next
  case (Cons c cs)
  let ?bits = "affinityMask (threads s thread)"
  show ?case
  proof (cases "unat (id' c) < length ?bits")
    case False
    then show ?thesis by (simp add: cores_result_ok_def)
  next
    case inrange: True
    show ?thesis
    proof (cases "?bits ! unat (id' c)")
      case False
      with inrange Cons.IH [of s "Suc i" opt minT] show ?thesis
        by (simp add: cores_result_ok_step)
    next
      case True
      obtain x s1 where ct: "core_timeslice s thread c = (x, s1)" by force
      from core_timeslice_frame [OF ct] have fr: "threads s1 = threads s" "cores s1 = cores s"
        by simp_all
      from inrange True have p: "passes s thread c" by (simp add: passes_def)
      show ?thesis
      proof (cases "opt = None \<or> x < minT \<or> (x = minT \<and> i = cur)")
        case True
        with inrange \<open>?bits ! unat (id' c)\<close> ct
        have "LoadBalance_cores s thread cur (c # cs) i opt minT
                = LoadBalance_cores s1 thread cur cs (Suc i) (Some i) x"
          by simp
        with Cons.IH [of s1 "Suc i" "Some i" x] fr p show ?thesis
          by (simp add: cores_result_ok_step)
      next
        case False
        with inrange \<open>?bits ! unat (id' c)\<close> ct
        have "LoadBalance_cores s thread cur (c # cs) i opt minT
                = LoadBalance_cores s1 thread cur cs (Suc i) opt minT"
          by auto
        with Cons.IH [of s1 "Suc i" opt minT] fr p show ?thesis
          by (simp add: cores_result_ok_step)
      qed
    qed
  qed
qed

lemma uint_small: "unat (c :: 8 word) < 128 \<Longrightarrow> uint c < 128"
  by (subst uint_nat) linarith

lemma sint_small:
  assumes "unat (c :: 8 word) < 128"
  shows "sint c = uint c"
proof -
  have "uint c < 2 ^ 7" using uint_small [OF assms] by simp
  moreover have "- (2 ^ 7) \<le> uint c" by (rule order_trans [of _ 0]) simp_all
  ultimately have "signed_take_bit 7 (uint c) = uint c"
    by (rule signed_take_bit_int_eq_self [rotated])
  then show ?thesis by (simp add: sint_uint)
qed

lemma placement_kept_affinity:
  "placement_kept a b \<Longrightarrow> in_affinity (threads b t) = in_affinity (threads a t)"
  by (simp add: placement_kept_def in_affinity_def)

lemma reached_lift:
  "state_reached (case x of Inl e \<Rightarrow> Inl e | Inr s2 \<Rightarrow> Inr (c, s2)) = Some s' \<Longrightarrow> s' = state_of x"
  by (auto simp: state_reached_def state_of_def split: sum.splits prod.splits if_splits)

lemma migrated_in_affinity:
  assumes "passes s thread c" and "length (affinityMask (threads s thread)) \<le> 128"
  shows "in_affinity ((threads s thread)\<lparr>coreId := id' c\<rparr>)"
proof -
  from assms have small: "unat (id' c) < 128" by (simp add: passes_def)
  from sint_small [OF small] have "sint (id' c) = uint (id' c)" .
  then have "nat (sint (id' c)) = unat (id' c)" "0 \<le> sint (id' c)" by simp_all
  with assms(1) show ?thesis by (simp add: in_affinity_def passes_def)
qed

text \<open>
  C8: when the thread's core is in its affinity mask (a mask of at most 128 cores), it
  still is in the state \<open>LoadBalance\<close> leaves behind, whether the call returns or throws.
\<close>

theorem LoadBalance_keeps_affinity:
  assumes aff: "in_affinity (threads s thread)"
    and len: "length (affinityMask (threads s thread)) \<le> 128"
    and res: "state_reached (LoadBalance s self thread alwaysInsert) = Some s'"
  shows "in_affinity (threads s' thread)"
proof (cases "cores_at s (coreId (threads s thread))")
  case None
  with res aff show ?thesis by (simp add: LoadBalance_def state_reached_def)
next
  case (Some cur)
  have ins: "\<And>a. in_affinity (threads a thread)
      \<Longrightarrow> in_affinity (threads (state_of (InsertThread a self thread)) thread)"
    using InsertThread_placement placement_kept_affinity by blast
  have rem: "\<And>a. in_affinity (threads a thread)
      \<Longrightarrow> in_affinity (threads (state_of (RemoveThread a self)) thread)"
    using RemoveThread_placement placement_kept_affinity by blast
  show ?thesis
  proof (cases "queue (cores s ! cur) \<noteq> [] \<and> mask_count (affinityMask (threads s thread)) \<noteq> 1")
    case False
    then have c: "(queue (cores s ! cur) \<noteq> []
        \<and> mask_count (affinityMask (threads s thread)) \<noteq> 1) = False"
      by blast
    from res have
      "state_reached (case (if alwaysInsert then InsertThread s self thread else Inr s) of
          Inl e \<Rightarrow> Inl e | Inr s1 \<Rightarrow> Inr (cur, s1)) = Some s'"
      by (simp only: LoadBalance_def Some option.case c if_False)
    from reached_lift [OF this] aff ins show ?thesis
      by (cases alwaysInsert) (simp_all add: state_of_def)
  next
    case True
    then have c: "(queue (cores s ! cur) \<noteq> []
        \<and> mask_count (affinityMask (threads s thread)) \<noteq> 1) = True"
      by blast
    note unfolded = res [unfolded LoadBalance_def Some option.case c if_True]
    let ?r = "LoadBalance_cores s thread cur (cores s) 0 None 0"
    have ok: "cores_result_ok s thread (cores s) 0 None ?r" by (rule LoadBalance_cores_frame)
    show ?thesis
    proof (cases ?r)
      case (Inl es)
      obtain e s1 where es: "es = (e, s1)" by force
      with Inl ok have "e = OutOfRange" "threads s1 = threads s"
        by (simp_all add: cores_result_ok_def)
      moreover from unfolded Inl es have "state_reached (Inl (e, s1)) = Some s'"
        by simp
      ultimately show ?thesis using aff by (simp add: state_reached_def)
    next
      case (Inr os)
      obtain opt s1 where os: "os = (opt, s1)" by force
      with Inr ok have fr: "threads s1 = threads s" "cores s1 = cores s"
        and ch: "chosen_ok s thread (cores s) 0 None opt"
        by (simp_all add: cores_result_ok_def)
      from fr aff have aff1: "in_affinity (threads s1 thread)" by simp
      show ?thesis
      proof (cases "opt = Some cur")
        case same: True
        with unfolded Inr os have
          "state_reached (case (if alwaysInsert then InsertThread s1 self thread else Inr s1) of
             Inl e \<Rightarrow> Inl e | Inr s2 \<Rightarrow> Inr (cur, s2)) = Some s'"
          by simp
        from reached_lift [OF this] aff1 ins show ?thesis
          by (cases alwaysInsert) (simp_all add: state_of_def)
      next
        case differs: False
        let ?pre = "if \<not> alwaysInsert \<and> thread = self then RemoveThread s1 self
                    else if \<not> alwaysInsert \<and> thread \<noteq> self
                    then Inl (Exception
                           ''Migrating an external thread (T{}) without 'alwaysInsert' isn't supported'',
                           s1)
                    else Inr s1"
        have pre_state: "in_affinity (threads (state_of ?pre) thread)"
          and pre_place: "placement_kept s1 (state_of ?pre)"
          using aff1 rem RemoveThread_placement [of s1 self]
          by (auto simp: state_of_def placement_kept_refl)
        from unfolded Inr os differs have u2:
          "state_reached
             (case ?pre of
                Inl e \<Rightarrow> Inl e
              | Inr s2 \<Rightarrow>
                  (case opt of
                     None \<Rightarrow> Inl (UndefinedBehaviour, s2)
                   | Some oc \<Rightarrow>
                       (case InsertThread
                               (upd_thread s2 thread (\<lambda>t. t\<lparr>coreId := id' (cores s2 ! oc)\<rparr>))
                               self thread of
                          Inl e \<Rightarrow> Inl e
                        | Inr s3 \<Rightarrow> Inr (oc, s3)))) = Some s'"
          by simp
        show ?thesis
        proof (cases ?pre)
          case (Inl es2)
          with u2 pre_state show ?thesis
            by (auto simp: state_reached_def state_of_def split: prod.splits if_splits)
        next
          case pre: (Inr s2)
          with pre_state pre_place have aff2: "in_affinity (threads s2 thread)"
            and pl2: "placement_kept s1 s2"
            by (simp_all add: state_of_def)
          show ?thesis
          proof (cases opt)
            case None
            with u2 pre show ?thesis by (simp add: state_reached_def)
          next
            case (Some oc)
            with ch have oc: "oc < length (cores s)" "passes s thread (cores s ! oc)"
              by (simp_all add: chosen_ok_def)
            let ?s3 = "upd_thread s2 thread (\<lambda>t. t\<lparr>coreId := id' (cores s2 ! oc)\<rparr>)"
            from pl2 fr have ids: "map id' (cores s2) = map id' (cores s)"
              and same: "affinityMask (threads s2 thread) = affinityMask (threads s thread)"
              by (simp_all add: placement_kept_def)
            from ids oc(1) have "id' (cores s2 ! oc) = id' (cores s ! oc)"
              by (metis length_map nth_map)
            moreover from oc(2) same have "passes s2 thread (cores s ! oc)"
              by (simp add: passes_def)
            ultimately have "in_affinity (threads ?s3 thread)"
              using migrated_in_affinity [of s2 thread "cores s ! oc"] len same
              by (simp add: upd_thread_def)
            from ins [OF this] have "in_affinity (threads (state_of (InsertThread ?s3 self thread)) thread)" .
            moreover from u2 pre Some have
              "state_reached (case InsertThread ?s3 self thread of
                  Inl e \<Rightarrow> Inl e | Inr s3 \<Rightarrow> Inr (oc, s3)) = Some s'"
              by simp
            from reached_lift [OF this] have "s' = state_of (InsertThread ?s3 self thread)" .
            ultimately show ?thesis by simp
          qed
        qed
      qed
    qed
  qed
qed


theorem LoadBalance_keeps_affinity_witness:
  "in_affinity (threads scenario_two_cores 0)
   \<and> (\<exists>s'. state_reached (LoadBalance scenario_two_cores 0 0 True) = Some s'
        \<and> coreId (threads s' 0) = 1 \<and> in_affinity (threads s' 0))"
proof -
  have aff: "in_affinity (threads scenario_two_cores 0)"
    and len: "length (affinityMask (threads scenario_two_cores 0)) \<le> 128"
    by (simp_all add: in_affinity_def scenario_two_cores_def scenario_defs)
  have "\<exists>s'. state_reached (LoadBalance scenario_two_cores 0 0 True) = Some s'
        \<and> coreId (threads s' 0) = 1"
    by (simp add: LoadBalance_def core_timeslice_def running_estimate_def mask_count_def
        state_reached_def scenario_two_cores_def scheduler_defs scenario_defs Let_def)
  then obtain s' where r: "state_reached (LoadBalance scenario_two_cores 0 0 True) = Some s'"
    and c: "coreId (threads s' 0) = 1"
    by blast
  from LoadBalance_keeps_affinity [OF aff len r] aff r c show ?thesis by blast
qed


section \<open>The order of the ready queue\<close>

lemma IsHigherPriority_small:
  "unat v < 128 \<Longrightarrow> IsHigherPriority v (ts x) = (unat v < prio_of ts x)"
  by (simp add: IsHigherPriority_def prio_of_def sint_small word_less_nat_alt [symmetric] word_less_def)

lemma upper_bound_from_partition:
  "(\<forall>i j. i \<le> j \<and> j < length q \<and> IsHigherPriority v (ts (q ! i)) \<longrightarrow> IsHigherPriority v (ts (q ! j)))
   \<Longrightarrow> first + count \<le> length q
   \<Longrightarrow> (\<forall>i<first. \<not> IsHigherPriority v (ts (q ! i)))
   \<Longrightarrow> (\<forall>i. first + count \<le> i \<and> i < length q \<longrightarrow> IsHigherPriority v (ts (q ! i)))
   \<Longrightarrow> upper_bound_from ts q v first count \<le> length q
       \<and> (\<forall>i<upper_bound_from ts q v first count. \<not> IsHigherPriority v (ts (q ! i)))
       \<and> (\<forall>i. upper_bound_from ts q v first count \<le> i \<and> i < length q
              \<longrightarrow> IsHigherPriority v (ts (q ! i)))"
proof (induction ts q v first count rule: upper_bound_from.induct)
  case (1 ts q v first count)
  show ?case
  proof (cases "0 < count")
    case False
    then have "upper_bound_from ts q v first count = first"
      by (subst upper_bound_from.simps) simp
    with "1.prems" False show ?thesis by simp
  next
    case pos: True
    define step where "step = count div 2"
    define it where "it = first + step"
    from pos have lt: "step < count" by (simp add: step_def)
    with "1.prems"(2) have it_in: "it < length q" by (simp add: it_def)
    show ?thesis
    proof (cases "IsHigherPriority v (ts (q ! it))")
      case False
      have left: "\<forall>i<it + 1. \<not> IsHigherPriority v (ts (q ! i))"
      proof (intro allI impI)
        fix i assume "i < it + 1"
        then have "i \<le> it" by simp
        with "1.prems"(1) it_in False show "\<not> IsHigherPriority v (ts (q ! i))" by blast
      qed
      have eq: "upper_bound_from ts q v first count
                  = upper_bound_from ts q v (it + 1) (count - (step + 1))"
        using pos False
        by (subst upper_bound_from.simps) (simp add: step_def it_def Let_def)
      have sum: "it + 1 + (count - (step + 1)) = first + count"
        using lt by (simp add: it_def)
      have p1: "it + 1 + (count - (step + 1)) \<le> length q"
        using sum "1.prems"(2) by simp
      have p3: "\<forall>i. it + 1 + (count - (step + 1)) \<le> i \<and> i < length q
                  \<longrightarrow> IsHigherPriority v (ts (q ! i))"
        using sum "1.prems"(4) by simp
      show ?thesis
        unfolding eq
        by (rule "1.IH"(1) [OF pos step_def it_def False "1.prems"(1) p1 left p3])
    next
      case True
      have right: "\<forall>i. first + step \<le> i \<and> i < length q \<longrightarrow> IsHigherPriority v (ts (q ! i))"
        using "1.prems"(1) True it_in by (auto simp: it_def)
      have eq: "upper_bound_from ts q v first count = upper_bound_from ts q v first step"
        using pos True
        by (subst upper_bound_from.simps) (simp add: step_def it_def Let_def)
      have p1: "first + step \<le> length q" using it_in by (simp add: it_def)
      have nn: "\<not> \<not> IsHigherPriority v (ts (q ! it))" using True by simp
      show ?thesis
        unfolding eq
        by (rule "1.IH"(2) [OF pos step_def it_def nn "1.prems"(1) p1 "1.prems"(3) right])
    qed
  qed
qed


lemma upper_bound_sorted:
  assumes "queue_sorted ts q" and "unat v < 128"
  shows "upper_bound ts q v = length (takeWhile (\<lambda>x. prio_of ts x \<le> unat v) q)"
proof -
  let ?r = "upper_bound_from ts q v 0 (length q)"
  have mono: "\<forall>i j. i \<le> j \<and> j < length q \<and> IsHigherPriority v (ts (q ! i))
                \<longrightarrow> IsHigherPriority v (ts (q ! j))"
  proof (intro allI impI)
    fix i j assume a: "i \<le> j \<and> j < length q \<and> IsHigherPriority v (ts (q ! i))"
    then have "map (prio_of ts) q ! i \<le> map (prio_of ts) q ! j"
      using assms(1) by (intro sorted_nth_mono) (simp_all add: queue_sorted_def)
    with a show "IsHigherPriority v (ts (q ! j))"
      by (simp add: IsHigherPriority_small [OF assms(2)])
  qed
  have "?r \<le> length q \<and> (\<forall>i<?r. \<not> IsHigherPriority v (ts (q ! i)))
      \<and> (\<forall>i. ?r \<le> i \<and> i < length q \<longrightarrow> IsHigherPriority v (ts (q ! i)))"
    by (rule upper_bound_from_partition [OF mono]) auto
  then have r: "?r \<le> length q" "\<forall>i<?r. \<not> IsHigherPriority v (ts (q ! i))"
    "\<forall>i. ?r \<le> i \<and> i < length q \<longrightarrow> IsHigherPriority v (ts (q ! i))"
    by blast+
  have "takeWhile (\<lambda>x. prio_of ts x \<le> unat v) q = take ?r q"
  proof (rule takeWhile_eq_take_P_nth)
    fix i assume "i < ?r" "i < length q"
    with r(2) show "prio_of ts (q ! i) \<le> unat v"
      by (auto simp: IsHigherPriority_small [OF assms(2)] not_less)
  next
    assume "?r < length q"
    with r(3) show "\<not> prio_of ts (q ! ?r) \<le> unat v"
      by (auto simp: IsHigherPriority_small [OF assms(2)] not_le)
  qed
  with r(1) show ?thesis by (simp add: upper_bound_def)
qed

lemma upper_bound_from_lands:
  "first + count \<le> length q
   \<Longrightarrow> (first + count < length q \<longrightarrow> IsHigherPriority v (ts (q ! (first + count))))
   \<Longrightarrow> upper_bound_from ts q v first count \<le> length q
       \<and> (upper_bound_from ts q v first count < length q
            \<longrightarrow> IsHigherPriority v (ts (q ! upper_bound_from ts q v first count)))"
proof (induction ts q v first count rule: upper_bound_from.induct)
  case (1 ts q v first count)
  show ?case
  proof (cases "0 < count")
    case False
    then have "upper_bound_from ts q v first count = first"
      by (subst upper_bound_from.simps) simp
    with "1.prems" False show ?thesis by simp
  next
    case pos: True
    define step where "step = count div 2"
    define it where "it = first + step"
    from pos have lt: "step < count" by (simp add: step_def)
    with "1.prems"(1) have it_in: "it < length q" by (simp add: it_def)
    show ?thesis
    proof (cases "IsHigherPriority v (ts (q ! it))")
      case False
      have eq: "upper_bound_from ts q v first count
                  = upper_bound_from ts q v (it + 1) (count - (step + 1))"
        using pos False
        by (subst upper_bound_from.simps) (simp add: step_def it_def Let_def)
      have sum: "it + 1 + (count - (step + 1)) = first + count"
        using lt by (simp add: it_def)
      have p1: "it + 1 + (count - (step + 1)) \<le> length q"
        using sum "1.prems"(1) by simp
      have p2: "it + 1 + (count - (step + 1)) < length q
                  \<longrightarrow> IsHigherPriority v (ts (q ! (it + 1 + (count - (step + 1)))))"
        using sum "1.prems"(2) by simp
      show ?thesis
        unfolding eq by (rule "1.IH"(1) [OF pos step_def it_def False p1 p2])
    next
      case True
      have eq: "upper_bound_from ts q v first count = upper_bound_from ts q v first step"
        using pos True
        by (subst upper_bound_from.simps) (simp add: step_def it_def Let_def)
      have p1: "first + step \<le> length q" using it_in by (simp add: it_def)
      have p2: "first + step < length q \<longrightarrow> IsHigherPriority v (ts (q ! (first + step)))"
        using True by (simp add: it_def)
      have nn: "\<not> \<not> IsHigherPriority v (ts (q ! it))" using True by simp
      show ?thesis
        unfolding eq by (rule "1.IH"(2) [OF pos step_def it_def nn p1 p2])
    qed
  qed
qed

lemma upper_bound_lands:
  "upper_bound ts q v \<le> length q
   \<and> (upper_bound ts q v < length q \<longrightarrow> IsHigherPriority v (ts (q ! upper_bound ts q v)))"
  unfolding upper_bound_def by (rule upper_bound_from_lands) simp_all

lemma upper_bound_from_cong:
  "(\<forall>x. priority (ts' x) = priority (ts x))
   \<Longrightarrow> upper_bound_from ts' q v first count = upper_bound_from ts q v first count"
proof (induction ts q v first count rule: upper_bound_from.induct)
  case (1 ts q v first count)
  show ?case
  proof (cases "0 < count")
    case False
    then have "upper_bound_from ts' q v first count = first"
      and "upper_bound_from ts q v first count = first"
      by (subst upper_bound_from.simps, simp)+
    then show ?thesis by simp
  next
    case pos: True
    define step where "step = count div 2"
    define it where "it = first + step"
    have same: "IsHigherPriority v (ts' (q ! it)) = IsHigherPriority v (ts (q ! it))"
      using "1.prems" by (simp add: IsHigherPriority_def)
    show ?thesis
    proof (cases "IsHigherPriority v (ts (q ! it))")
      case False
      have "upper_bound_from ts' q v first count
              = upper_bound_from ts' q v (it + 1) (count - (step + 1))"
        and "upper_bound_from ts q v first count
              = upper_bound_from ts q v (it + 1) (count - (step + 1))"
        using pos False same
        by (subst upper_bound_from.simps, simp add: step_def it_def Let_def)+
      with "1.IH"(1) [OF pos step_def it_def False "1.prems"] show ?thesis by simp
    next
      case True
      then have nn: "\<not> \<not> IsHigherPriority v (ts (q ! it))" by simp
      have "upper_bound_from ts' q v first count = upper_bound_from ts' q v first step"
        and "upper_bound_from ts q v first count = upper_bound_from ts q v first step"
        using pos True same
        by (subst upper_bound_from.simps, simp add: step_def it_def Let_def)+
      with "1.IH"(2) [OF pos step_def it_def nn "1.prems"] show ?thesis by simp
    qed
  qed
qed

lemma upper_bound_cong:
  "(\<forall>x. priority (ts' x) = priority (ts x)) \<Longrightarrow> upper_bound ts' q v = upper_bound ts q v"
  by (simp add: upper_bound_def upper_bound_from_cong)

lemma set_take_drop_while: "set (takeWhile P q) \<union> set (dropWhile P q) = set q"
  by (metis set_append takeWhile_dropWhile_id)

lemma sorted_placed_gen:
  fixes f :: "'a \<Rightarrow> nat"
  assumes "sorted (map f q)" and "f t = p"
  shows "sorted (map f (takeWhile (\<lambda>x. f x \<le> p) q @ t # dropWhile (\<lambda>x. f x \<le> p) q))"
  using assms(1)
proof (induction q)
  case Nil
  then show ?case by simp
next
  case (Cons a q)
  let ?tw = "takeWhile (\<lambda>x. f x \<le> p) q" and ?dw = "dropWhile (\<lambda>x. f x \<le> p) q"
  from Cons.prems have sq: "sorted (map f q)" and le: "\<forall>x\<in>set q. f a \<le> f x" by simp_all
  from Cons.IH [OF sq] have ih: "sorted (map f (?tw @ t # ?dw))" .
  have els: "set (?tw @ t # ?dw) = insert t (set q)"
    using set_take_drop_while [of "\<lambda>x. f x \<le> p" q] by auto
  show ?case
  proof (cases "f a \<le> p")
    case True
    with le assms(2) els have "\<forall>y\<in>set (?tw @ t # ?dw). f a \<le> f y" by auto
    with ih True show ?thesis by (simp del: map_append)
  next
    case False
    with le assms(2) have "\<forall>y\<in>set (a # q). f t \<le> f y" by auto
    with Cons.prems False show ?thesis by simp
  qed
qed

lemma placed_sorted: "queue_sorted ts q \<Longrightarrow> queue_sorted ts (placed ts q t)"
  by (simp add: queue_sorted_def placed_def sorted_placed_gen del: map_append)

lemma placed_set: "set (placed ts q t) = insert t (set q)"
  using set_take_drop_while [of "\<lambda>x. prio_of ts x \<le> prio_of ts t" q] by (auto simp: placed_def)


lemma cores_at_less: "cores_at s c = Some ci \<Longrightarrow> ci < length (cores s)"
  by (auto simp: cores_at_def split: if_splits)

lemma threads_set_queue: "threads (set_queue s ci q) = threads s"
  by (simp add: set_queue_def)

lemma queue_sorted_cong:
  assumes "\<forall>x. priority (ts' x) = priority (ts x)"
  shows "queue_sorted ts' q = queue_sorted ts q"
proof -
  from assms have "prio_of ts' = prio_of ts" by (simp add: prio_of_def fun_eq_iff)
  then show ?thesis by (simp add: queue_sorted_def)
qed

lemma upper_bound_forceYield:
  "upper_bound (threads (upd_thread s a (\<lambda>t. t\<lparr>forceYield := True\<rparr>))) q v
     = upper_bound (threads s) q v"
  by (rule upper_bound_cong) (simp add: upd_thread_def)

lemma upper_bound_isPreempted:
  "upper_bound (threads (upd_thread s a (\<lambda>t. t\<lparr>isPreempted := False\<rparr>))) q v
     = upper_bound (threads s) q v"
  by (rule upper_bound_cong) (simp add: upd_thread_def)

lemma insert_at_placed:
  "insert_at (length (takeWhile (\<lambda>x. prio_of ts x \<le> prio_of ts t) q)) t q = placed ts q t"
  by (simp add: insert_at_def placed_def takeWhile_eq_take [symmetric] dropWhile_eq_drop [symmetric])

lemma splice_front_placed:
  "splice_front (length (takeWhile (\<lambda>x. prio_of ts x \<le> prio_of ts a) (a # qs))) (a # qs)
     = placed ts qs a"
  by (simp add: splice_front_def placed_def takeWhile_eq_take [symmetric]
      dropWhile_eq_drop [symmetric])

lemma sorted_cons_placed:
  assumes "queue_sorted ts (a # qs)" and "prio_of ts t < prio_of ts a"
  shows "queue_sorted ts (t # placed ts qs a)"
proof -
  from assms(1) have qs: "queue_sorted ts qs" and le: "\<forall>x\<in>set qs. prio_of ts a \<le> prio_of ts x"
    by (simp_all add: queue_sorted_def)
  from placed_sorted [OF qs] have "queue_sorted ts (placed ts qs a)" .
  moreover from le assms(2) have "\<forall>x\<in>set (placed ts qs a). prio_of ts t \<le> prio_of ts x"
    by (auto simp: placed_set)
  ultimately show ?thesis by (simp add: queue_sorted_def)
qed


lemma InsertThread_shape:
  assumes ci: "cores_at s (coreId (threads s thread)) = Some ci"
    and srt: "queue_sorted (threads s) (queue (cores s ! ci))"
    and small: "\<forall>x\<in>set (thread # queue (cores s ! ci)). prio_of (threads s) x < 128"
  shows "\<exists>s'. InsertThread s self thread = Inr s'
           \<and> queue_replaced s s' ci
                (if queue (cores s ! ci) \<noteq> []
                    \<and> prio_of (threads s) thread < prio_of (threads s) (hd (queue (cores s ! ci)))
                 then thread # placed (threads s) (tl (queue (cores s ! ci))) (hd (queue (cores s ! ci)))
                 else placed (threads s) (queue (cores s ! ci)) thread)"
proof -
  let ?ts = "threads s"
  let ?q = "queue (cores s ! ci)"
  let ?p = "prio_of ?ts thread"
  from cores_at_less [OF ci] have lt: "ci < length (cores s)" .
  from small have ps: "unat (priority (?ts thread)) < 128" by (simp add: prio_of_def)
  have n: "upper_bound ?ts ?q (priority (?ts thread))
             = length (takeWhile (\<lambda>x. prio_of ?ts x \<le> ?p) ?q)"
    using upper_bound_sorted [OF srt ps] by (simp add: prio_of_def)
  show ?thesis
  proof (cases ?q)
    case Nil
    then show ?thesis
      using ci lt n
      by (simp add: InsertThread_def Let_def queue_replaced_def set_queue_def emit_def
          placed_def)
  next
    case (Cons a qs)
    show ?thesis
    proof (cases "?p < prio_of ?ts a")
      case True
      with Cons n have n0: "upper_bound ?ts ?q (priority (?ts thread)) = 0" by simp
      from small Cons have pa: "unat (priority (?ts a)) < 128" by (simp add: prio_of_def)
      have pos: "upper_bound ?ts (a # qs) (priority (?ts a))
                   = length (takeWhile (\<lambda>x. prio_of ?ts x \<le> prio_of ?ts a) (a # qs))"
        using upper_bound_sorted [OF srt pa] Cons by (simp add: prio_of_def)
      have sp: "splice_front (upper_bound ?ts ?q (priority (?ts a))) ?q = placed ?ts qs a"
        unfolding Cons pos by (rule splice_front_placed)
      have pa_same: "priority (threads (upd_thread s a (\<lambda>t. t\<lparr>forceYield := True\<rparr>)) a)
                       = priority (?ts a)"
        by (simp add: upd_thread_def)
      show ?thesis
        using ci lt n0 Cons True sp
        apply (simp add: InsertThread_def Let_def upper_bound_forceYield pa_same)
        apply (simp add: queue_replaced_def emit_def upd_thread_def set_queue_def)
        done
    next
      case False
      with Cons have "takeWhile (\<lambda>x. prio_of ?ts x \<le> ?p) ?q \<noteq> []" by simp
      with n have npos: "upper_bound ?ts ?q (priority (?ts thread)) \<noteq> 0" by simp
      have "insert_at (upper_bound ?ts ?q (priority (?ts thread))) thread ?q = placed ?ts ?q thread"
        unfolding n by (rule insert_at_placed)
      then show ?thesis
        using ci lt npos Cons False
        by (simp add: InsertThread_def Let_def queue_replaced_def set_queue_def)
    qed
  qed
qed

lemma queue_replaced_queue:
  "queue_replaced s s' ci q' \<Longrightarrow> ci < length (cores s) \<Longrightarrow> queue (cores s' ! ci) = q'"
  by (simp add: queue_replaced_def)

lemma queue_replaced_sorted:
  "queue_replaced s s' ci q' \<Longrightarrow> queue_sorted (threads s') q = queue_sorted (threads s) q"
  by (rule queue_sorted_cong) (simp add: queue_replaced_def)

lemma queue_replaced_same:
  assumes "cores s' = cores s"
    and "\<forall>x. priority (threads s' x) = priority (threads s x)
             \<and> coreId (threads s' x) = coreId (threads s x)"
  shows "queue_replaced s s' ci (queue (cores s ! ci))"
  using assms by (simp add: queue_replaced_def)

lemma find_index_of_None: "(find_index_of t q = None) = (t \<notin> set q)"
  by (induction q) auto

lemma find_index_of_Some:
  "find_index_of t q = Some k \<Longrightarrow> k < length q \<and> q ! k = t \<and> erase_at k q = remove1 t q"
proof (induction q arbitrary: k)
  case Nil
  then show ?case by simp
next
  case (Cons a q)
  show ?case
  proof (cases "a = t")
    case True
    with Cons.prems show ?thesis by (simp add: erase_at_def)
  next
    case False
    with Cons.prems obtain j where j: "find_index_of t q = Some j" "k = Suc j" by auto
    from Cons.IH [OF j(1)] j(2) False show ?thesis by (simp add: erase_at_def)
  qed
qed

lemma Rotate_shape:
  assumes ci: "cores_at s (coreId (threads s self)) = Some ci"
    and srt: "queue_sorted (threads s) (queue (cores s ! ci))"
    and small: "\<forall>x\<in>set (queue (cores s ! ci)). prio_of (threads s) x < 128"
    and head: "queue (cores s ! ci) \<noteq> []" "hd (queue (cores s ! ci)) = self"
  shows "\<exists>s'. Rotate s self cooperative = Inr s'
           \<and> queue_replaced s s' ci (placed (threads s) (tl (queue (cores s ! ci))) self)"
proof -
  let ?ts = "threads s"
  let ?q = "queue (cores s ! ci)"
  from cores_at_less [OF ci] have lt: "ci < length (cores s)" .
  from head obtain qs where c: "?q = self # qs" by (cases ?q) auto
  with small have ps: "unat (priority (?ts self)) < 128" by (simp add: prio_of_def)
  have pos: "upper_bound ?ts (self # qs) (priority (?ts self))
               = length (takeWhile (\<lambda>x. prio_of ?ts x \<le> prio_of ?ts self) (self # qs))"
    using upper_bound_sorted [OF srt ps] c by (simp add: prio_of_def)
  have sp: "splice_front (upper_bound ?ts ?q (priority (?ts self))) ?q = placed ?ts qs self"
    unfolding c pos by (rule splice_front_placed)
  show ?thesis
    using ci lt c sp
    apply (simp add: Rotate_def Let_def)
    apply (simp add: queue_replaced_def update_averageTimeslice_def GetTimeTicks_def emit_def
        upd_thread_def set_queue_def)
    done
qed

lemma RemoveThread_shape:
  assumes ci: "cores_at s (coreId (threads s self)) = Some ci"
  shows "\<exists>s'. RemoveThread s self = Inr s'
           \<and> queue_replaced s s' ci (remove1 self (queue (cores s ! ci)))"
proof (cases "find_index_of self (queue (cores s ! ci))")
  case None
  then have "self \<notin> set (queue (cores s ! ci))" by (simp add: find_index_of_None)
  then have "remove1 self (queue (cores s ! ci)) = queue (cores s ! ci)"
    by (simp add: remove1_idem)
  with ci None show ?thesis
    by (simp add: RemoveThread_def Let_def queue_replaced_def emit_def upd_thread_def)
next
  case (Some k)
  from cores_at_less [OF ci] have lt: "ci < length (cores s)" .
  from find_index_of_Some [OF Some]
  have e: "erase_at k (queue (cores s ! ci)) = remove1 self (queue (cores s ! ci))" by simp
  show ?thesis
    using ci lt Some e
    apply (simp add: RemoveThread_def Let_def)
    apply (simp add: queue_replaced_def update_averageTimeslice_def GetTimeTicks_def emit_def
        upd_thread_def set_queue_def)
    done
qed


lemma not_higher_than_itself:
  "unat (priority t) < 128 \<Longrightarrow> \<not> IsHigherPriority (priority t) t"
  by (simp add: IsHigherPriority_def sint_small)

lemma UpdatePriority_shape:
  assumes ci: "cores_at s (coreId (threads s thread)) = Some ci"
    and srt: "queue_sorted (threads s) (remove1 thread (queue (cores s ! ci)))"
    and small: "\<forall>x\<in>set (queue (cores s ! ci)). prio_of (threads s) x < 128"
    and mem: "thread \<in> set (queue (cores s ! ci))"
    and behind: "hd (queue (cores s ! ci)) \<noteq> thread"
  shows "\<exists>s'. UpdatePriority s thread = Inr s'
           \<and> queue_replaced s s' ci
                (if prio_of (threads s) thread < prio_of (threads s) (hd (queue (cores s ! ci)))
                 then hd (queue (cores s ! ci)) # thread
                        # tl (remove1 thread (queue (cores s ! ci)))
                 else placed (threads s) (remove1 thread (queue (cores s ! ci))) thread)"
proof -
  let ?ts = "threads s"
  let ?q = "queue (cores s ! ci)"
  let ?p = "priority (?ts thread)"
  let ?q1 = "remove1 thread ?q"
  from cores_at_less [OF ci] have lt: "ci < length (cores s)" .
  from mem small have ps: "unat ?p < 128" by (simp add: prio_of_def)
  from mem obtain k where k: "find_index_of thread ?q = Some k"
    using find_index_of_None [of thread ?q] by (cases "find_index_of thread ?q") auto
  from find_index_of_Some [OF k] have kk: "k < length ?q" "?q ! k = thread"
    and er: "erase_at k ?q = ?q1"
    by simp_all
  from mem behind obtain a qs where c: "?q = a # qs" "a \<noteq> thread" by (cases ?q) auto
  with k have k0: "k \<noteq> 0" by auto
  from c have q1: "?q1 = a # remove1 thread qs" by simp
  have ne: "k \<noteq> upper_bound ?ts ?q ?p"
  proof
    assume "k = upper_bound ?ts ?q ?p"
    with kk upper_bound_lands [of ?ts ?q ?p] have "IsHigherPriority ?p (?ts thread)" by auto
    with not_higher_than_itself [OF ps] show False by simp
  qed
  have n: "upper_bound ?ts ?q1 ?p = length (takeWhile (\<lambda>x. prio_of ?ts x \<le> prio_of ?ts thread) ?q1)"
    using upper_bound_sorted [OF srt ps] by (simp add: prio_of_def)
  have same: "\<And>s' x. priority (threads (upd_thread s' thread (\<lambda>t. t\<lparr>isPreempted := False\<rparr>)) x)
                 = priority (threads s' x)"
    by (simp add: upd_thread_def)
  have te: "\<And>s' e. threads (emit s' e) = threads s'" by (simp add: emit_def)
  from c have hq: "hd ?q = a" by simp
  from q1 have l1: "0 \<noteq> length ?q1" by simp
  from q1 have i1: "insert_at (Suc 0) thread ?q1 = hd ?q # thread # tl ?q1"
    by (simp add: insert_at_def hq)
  show ?thesis
  proof (cases "prio_of ?ts thread < prio_of ?ts (hd ?q)")
    case True
    with n q1 hq have n0: "upper_bound ?ts ?q1 ?p = 0" by simp
    show ?thesis
      using ci lt k k0 ne er n0 l1 i1 True
      apply (simp add: UpdatePriority_def Let_def upper_bound_isPreempted same te
          threads_set_queue)
      apply (simp add: queue_replaced_def emit_def upd_thread_def set_queue_def)
      done
  next
    case False
    with q1 hq have "takeWhile (\<lambda>x. prio_of ?ts x \<le> prio_of ?ts thread) ?q1 \<noteq> []" by simp
    with n have npos: "upper_bound ?ts ?q1 ?p \<noteq> 0" by simp
    have ins: "insert_at (upper_bound ?ts ?q1 ?p) thread ?q1 = placed ?ts ?q1 thread"
      unfolding n by (rule insert_at_placed)
    show ?thesis
      using ci lt k k0 ne er npos ins False
      apply (simp add: UpdatePriority_def Let_def upper_bound_isPreempted same te
          threads_set_queue)
      apply (auto simp add: queue_replaced_def emit_def upd_thread_def set_queue_def)
      done
  qed
qed


lemmas order_defs = queue_sorted_def prio_of_def placed_def

text \<open>
  C1, as the specification states it, fails for \<open>UpdatePriority\<close>: the queue [B, C, A]
  with priorities 5, 5 and 10 is in order; A's priority becomes 3 and \<open>UpdatePriority\<close>
  makes the queue [B, A, C], with priorities 5, 3 and 5.
\<close>

theorem ready_queue_order_counterexample:
  "queue_sorted (threads scenario_BCA) (queue (cores scenario_BCA ! 0))
   \<and> queue_after (UpdatePriority (upd_thread scenario_BCA 0 (\<lambda>t. t\<lparr>priority := 3\<rparr>)) 0) 0
       = Some [1, 0, 2]
   \<and> \<not> queue_sorted
         (threads (state_of (UpdatePriority (upd_thread scenario_BCA 0 (\<lambda>t. t\<lparr>priority := 3\<rparr>)) 0)))
         [1, 0, 2]"
  by (simp add: scheduler_defs scenario_defs scenario_BCA_def order_defs state_of_def Let_def)

text \<open>
  C1, amended. All priorities are below 128, so that the \<open>i8\<close> parameter of
  \<open>IsHigherPriority\<close> holds them unchanged (guest priorities are 0 to 63). Every operation
  below returns, changes no queue but the one of the thread's core, and leaves every thread
  its priority and its core. On a queue in non-decreasing order of priority:
  \<^item> \<open>InsertThread\<close> puts the thread behind every thread of the same or a better priority;
    when it outranks the head it becomes the head, and the old head goes behind the last
    thread of its own priority. The queue stays in order.
  \<^item> \<open>Rotate\<close>, called by the head, moves it behind the last thread of its own priority.
    The queue stays in order.
  \<^item> \<open>RemoveThread\<close> takes out the caller and nothing else. The queue stays in order.

  \<open>UpdatePriority\<close> runs after the thread's priority has changed, on a queue that is in
  order but for that thread. A thread behind the head is taken out and put back behind every
  thread of the same or a better priority, except that a thread which now outranks the head
  goes right behind it: the queue is in order from its second thread on, and as a whole
  exactly when the thread does not outrank the head. The queue is left as it is when the
  thread is at its head or not in it.
\<close>

theorem ready_queue_order:
  assumes ci: "cores_at s (coreId (threads s t)) = Some ci"
    and small: "\<forall>x\<in>set (t # queue (cores s ! ci)). prio_of (threads s) x < 128"
  shows
    "(queue_sorted (threads s) (queue (cores s ! ci)) \<longrightarrow>
        (let q' = (if queue (cores s ! ci) \<noteq> []
                      \<and> prio_of (threads s) t < prio_of (threads s) (hd (queue (cores s ! ci)))
                   then t # placed (threads s) (tl (queue (cores s ! ci)))
                              (hd (queue (cores s ! ci)))
                   else placed (threads s) (queue (cores s ! ci)) t)
         in \<exists>s'. InsertThread s self t = Inr s'
              \<and> queue_replaced s s' ci q' \<and> queue (cores s' ! ci) = q'
              \<and> queue_sorted (threads s') q'))
     \<and> (queue_sorted (threads s) (queue (cores s ! ci))
          \<and> queue (cores s ! ci) \<noteq> [] \<and> hd (queue (cores s ! ci)) = t \<longrightarrow>
        (let q' = placed (threads s) (tl (queue (cores s ! ci))) t
         in \<exists>s'. Rotate s t cooperative = Inr s'
              \<and> queue_replaced s s' ci q' \<and> queue (cores s' ! ci) = q'
              \<and> queue_sorted (threads s') q'))
     \<and> (queue_sorted (threads s) (queue (cores s ! ci)) \<longrightarrow>
        (let q' = remove1 t (queue (cores s ! ci))
         in \<exists>s'. RemoveThread s t = Inr s'
              \<and> queue_replaced s s' ci q' \<and> queue (cores s' ! ci) = q'
              \<and> queue_sorted (threads s') q'))
     \<and> (queue_sorted (threads s) (remove1 t (queue (cores s ! ci)))
          \<and> t \<in> set (queue (cores s ! ci)) \<and> hd (queue (cores s ! ci)) \<noteq> t \<longrightarrow>
        (let q' = (if prio_of (threads s) t < prio_of (threads s) (hd (queue (cores s ! ci)))
                   then hd (queue (cores s ! ci)) # t # tl (remove1 t (queue (cores s ! ci)))
                   else placed (threads s) (remove1 t (queue (cores s ! ci))) t)
         in \<exists>s'. UpdatePriority s t = Inr s'
              \<and> queue_replaced s s' ci q' \<and> queue (cores s' ! ci) = q'
              \<and> queue_sorted (threads s') (tl q')
              \<and> (queue_sorted (threads s') q'
                   \<longleftrightarrow> \<not> prio_of (threads s) t
                            < prio_of (threads s) (hd (queue (cores s ! ci))))))
     \<and> (t \<notin> set (queue (cores s ! ci)) \<or> hd (queue (cores s ! ci)) = t \<longrightarrow>
        (\<exists>s'. UpdatePriority s t = Inr s'
           \<and> queue_replaced s s' ci (queue (cores s ! ci))
           \<and> queue (cores s' ! ci) = queue (cores s ! ci)))"
proof (intro conjI impI)
  let ?ts = "threads s" and ?q = "queue (cores s ! ci)"
  from small have small_q: "\<forall>x\<in>set ?q. prio_of ?ts x < 128" by simp
  from cores_at_less [OF ci] have lt: "ci < length (cores s)" .
  {
    assume srt: "queue_sorted ?ts ?q"
    let ?q' = "if ?q \<noteq> [] \<and> prio_of ?ts t < prio_of ?ts (hd ?q)
               then t # placed ?ts (tl ?q) (hd ?q) else placed ?ts ?q t"
    from InsertThread_shape [OF ci srt small, of self] obtain s' where
      r: "InsertThread s self t = Inr s'" and fr: "queue_replaced s s' ci ?q'"
      by blast
    have "queue_sorted ?ts ?q'"
    proof (cases "?q \<noteq> [] \<and> prio_of ?ts t < prio_of ?ts (hd ?q)")
      case True
      then obtain a qs where c: "?q = a # qs" by (cases ?q) auto
      with True srt show ?thesis by (simp add: sorted_cons_placed)
    next
      case False
      with placed_sorted [OF srt] show ?thesis by auto
    qed
    with queue_replaced_sorted [OF fr] have "queue_sorted (threads s') ?q'" by simp
    with r fr queue_replaced_queue [OF fr lt]
    show "let q' = ?q'
          in \<exists>s'. InsertThread s self t = Inr s'
               \<and> queue_replaced s s' ci q' \<and> queue (cores s' ! ci) = q'
               \<and> queue_sorted (threads s') q'"
      unfolding Let_def by blast
  }
  {
    assume a: "queue_sorted ?ts ?q \<and> ?q \<noteq> [] \<and> hd ?q = t"
    then have srt: "queue_sorted ?ts ?q" and ne: "?q \<noteq> []" and hd: "hd ?q = t" by simp_all
    let ?q' = "placed ?ts (tl ?q) t"
    from Rotate_shape [OF ci srt small_q ne hd, of cooperative] obtain s' where
      r: "Rotate s t cooperative = Inr s'" and fr: "queue_replaced s s' ci ?q'"
      by blast
    from srt ne have "queue_sorted ?ts (tl ?q)"
      by (cases ?q) (simp_all add: queue_sorted_def)
    from placed_sorted [OF this] queue_replaced_sorted [OF fr]
    have "queue_sorted (threads s') ?q'" by simp
    with r fr queue_replaced_queue [OF fr lt]
    show "let q' = ?q'
          in \<exists>s'. Rotate s t cooperative = Inr s'
               \<and> queue_replaced s s' ci q' \<and> queue (cores s' ! ci) = q'
               \<and> queue_sorted (threads s') q'"
      unfolding Let_def by blast
  }
  {
    assume srt: "queue_sorted ?ts ?q"
    let ?q' = "remove1 t ?q"
    from RemoveThread_shape [OF ci] obtain s' where
      r: "RemoveThread s t = Inr s'" and fr: "queue_replaced s s' ci ?q'"
      by blast
    from srt have "queue_sorted ?ts ?q'"
      by (simp add: queue_sorted_def sorted_map_remove1)
    with queue_replaced_sorted [OF fr] have "queue_sorted (threads s') ?q'" by simp
    with r fr queue_replaced_queue [OF fr lt]
    show "let q' = ?q'
          in \<exists>s'. RemoveThread s t = Inr s'
               \<and> queue_replaced s s' ci q' \<and> queue (cores s' ! ci) = q'
               \<and> queue_sorted (threads s') q'"
      unfolding Let_def by blast
  }
  {
    assume a: "queue_sorted ?ts (remove1 t ?q) \<and> t \<in> set ?q \<and> hd ?q \<noteq> t"
    then have srt: "queue_sorted ?ts (remove1 t ?q)" and mem: "t \<in> set ?q"
      and behind: "hd ?q \<noteq> t" by simp_all
    let ?out = "prio_of ?ts t < prio_of ?ts (hd ?q)"
    let ?q' = "if ?out then hd ?q # t # tl (remove1 t ?q) else placed ?ts (remove1 t ?q) t"
    from UpdatePriority_shape [OF ci srt small_q mem behind] obtain s' where
      r: "UpdatePriority s t = Inr s'" and fr: "queue_replaced s s' ci ?q'"
      by blast
    from mem behind obtain a qs where c: "?q = a # qs" "a \<noteq> t" by (cases ?q) auto
    then have q1: "remove1 t ?q = a # remove1 t qs" by simp
    with srt have rest: "queue_sorted ?ts (remove1 t qs)"
      and le: "\<forall>x\<in>set (remove1 t qs). prio_of ?ts a \<le> prio_of ?ts x"
      by (simp_all add: queue_sorted_def)
    have tl_sorted: "queue_sorted ?ts (tl ?q')"
    proof (cases ?out)
      case True
      with c q1 rest le show ?thesis by (auto simp: queue_sorted_def)
    next
      case False
      from placed_sorted [OF srt] have "queue_sorted ?ts (placed ?ts (remove1 t ?q) t)" .
      then have "queue_sorted ?ts (tl (placed ?ts (remove1 t ?q) t))"
        by (cases "placed ?ts (remove1 t ?q) t") (simp_all add: queue_sorted_def)
      with False show ?thesis by simp
    qed
    have all_sorted: "queue_sorted ?ts ?q' \<longleftrightarrow> \<not> ?out"
    proof (cases ?out)
      case True
      with c have "\<not> queue_sorted ?ts (hd ?q # t # tl (remove1 t ?q))"
        by (simp add: queue_sorted_def)
      with True show ?thesis by simp
    next
      case False
      with placed_sorted [OF srt] show ?thesis by simp
    qed
    from tl_sorted all_sorted queue_replaced_sorted [OF fr]
    have "queue_sorted (threads s') (tl ?q')"
      and "queue_sorted (threads s') ?q' \<longleftrightarrow> \<not> ?out"
      by simp_all
    with r fr queue_replaced_queue [OF fr lt]
    show "let q' = ?q'
          in \<exists>s'. UpdatePriority s t = Inr s'
               \<and> queue_replaced s s' ci q' \<and> queue (cores s' ! ci) = q'
               \<and> queue_sorted (threads s') (tl q')
               \<and> (queue_sorted (threads s') q' \<longleftrightarrow> \<not> ?out)"
      unfolding Let_def by blast
  }
  {
    assume a: "t \<notin> set ?q \<or> hd ?q = t"
    have "find_index_of t ?q = None \<or> find_index_of t ?q = Some 0"
    proof (cases "t \<in> set ?q")
      case False
      then show ?thesis by (simp add: find_index_of_None)
    next
      case True
      with a have "hd ?q = t" by simp
      with True show ?thesis by (cases ?q) auto
    qed
    with ci have r: "UpdatePriority s t = Inr s"
      by (auto simp: UpdatePriority_def Let_def)
    have "queue_replaced s s ci ?q" by (rule queue_replaced_same) simp_all
    with r show "\<exists>s'. UpdatePriority s t = Inr s' \<and> queue_replaced s s' ci ?q
        \<and> queue (cores s' ! ci) = ?q"
      by blast
  }
qed

theorem ready_queue_order_witness:
  "(\<exists>s'. InsertThread scenario_BCA 3 3 = Inr s' \<and> queue (cores s' ! 0) = [1, 2, 3, 0]
        \<and> queue_sorted (threads s') [1, 2, 3, 0])
   \<and> (\<exists>s'. Rotate scenario_BCA 1 False = Inr s' \<and> queue (cores s' ! 0) = [2, 1, 0]
        \<and> queue_sorted (threads s') [2, 1, 0])
   \<and> (\<exists>s'. RemoveThread scenario_BCA 2 = Inr s' \<and> queue (cores s' ! 0) = [1, 0]
        \<and> queue_sorted (threads s') [1, 0])
   \<and> (\<exists>s'. UpdatePriority (upd_thread scenario_BCA 0 (\<lambda>t. t\<lparr>priority := 3\<rparr>)) 0 = Inr s'
        \<and> queue (cores s' ! 0) = [1, 0, 2]
        \<and> queue_sorted (threads s') [0, 2] \<and> \<not> queue_sorted (threads s') [1, 0, 2])
   \<and> (\<exists>s'. UpdatePriority (upd_thread scenario_BCA 2 (\<lambda>t. t\<lparr>priority := 20\<rparr>)) 2 = Inr s'
        \<and> queue (cores s' ! 0) = [1, 0, 2]
        \<and> queue_sorted (threads s') [1, 0, 2])
   \<and> (\<exists>s'. UpdatePriority scenario_BCA 1 = Inr s' \<and> queue (cores s' ! 0) = [1, 2, 0])"
proof -
  let ?up = "upd_thread scenario_BCA 0 (\<lambda>t. t\<lparr>priority := 3\<rparr>)"
  let ?down = "upd_thread scenario_BCA 2 (\<lambda>t. t\<lparr>priority := 20\<rparr>)"
  have ci: "\<And>t. cores_at scenario_BCA (coreId (threads scenario_BCA t)) = Some 0"
    "cores_at ?up (coreId (threads ?up 0)) = Some 0"
    "cores_at ?down (coreId (threads ?down 2)) = Some 0"
    by (simp_all add: cores_at_def scenario_BCA_def scenario_defs upd_thread_def)
  have small:
    "\<And>t. \<forall>x\<in>set (t # queue (cores scenario_BCA ! 0)). prio_of (threads scenario_BCA) x < 128"
    "\<forall>x\<in>set (0 # queue (cores ?up ! 0)). prio_of (threads ?up) x < 128"
    "\<forall>x\<in>set (2 # queue (cores ?down ! 0)). prio_of (threads ?down) x < 128"
    by (simp_all add: scenario_BCA_def scenario_defs upd_thread_def prio_of_def)
  have a: "\<exists>s'. InsertThread scenario_BCA 3 3 = Inr s' \<and> queue (cores s' ! 0) = [1, 2, 3, 0]
        \<and> queue_sorted (threads s') [1, 2, 3, 0]"
    using ready_queue_order [OF ci(1) small(1), of 3 3 False]
    by (simp add: scenario_BCA_def scenario_defs order_defs Let_def) blast
  have b: "\<exists>s'. Rotate scenario_BCA 1 False = Inr s' \<and> queue (cores s' ! 0) = [2, 1, 0]
        \<and> queue_sorted (threads s') [2, 1, 0]"
    using ready_queue_order [OF ci(1) small(1), of 1 1 False]
    by (simp add: scenario_BCA_def scenario_defs order_defs Let_def) blast
  have c: "\<exists>s'. RemoveThread scenario_BCA 2 = Inr s' \<and> queue (cores s' ! 0) = [1, 0]
        \<and> queue_sorted (threads s') [1, 0]"
    using ready_queue_order [OF ci(1) small(1), of 2 2 False]
    by (simp add: scenario_BCA_def scenario_defs order_defs Let_def) blast
  have d: "\<exists>s'. UpdatePriority ?up 0 = Inr s' \<and> queue (cores s' ! 0) = [1, 0, 2]
        \<and> queue_sorted (threads s') [0, 2] \<and> \<not> queue_sorted (threads s') [1, 0, 2]"
    using ready_queue_order [OF ci(2) small(2), of 0 False]
    by (simp add: scenario_BCA_def scenario_defs order_defs upd_thread_def Let_def) blast
  have e: "\<exists>s'. UpdatePriority ?down 2 = Inr s' \<and> queue (cores s' ! 0) = [1, 0, 2]
        \<and> queue_sorted (threads s') [1, 0, 2]"
    using ready_queue_order [OF ci(3) small(3), of 2 False]
    by (simp add: scenario_BCA_def scenario_defs order_defs upd_thread_def Let_def) blast
  have f: "\<exists>s'. UpdatePriority scenario_BCA 1 = Inr s' \<and> queue (cores s' ! 0) = [1, 2, 0]"
    using ready_queue_order [OF ci(1) small(1), of 1 1 False]
    by (simp add: scenario_BCA_def scenario_defs order_defs Let_def) blast
  from a b c d e f show ?thesis by blast
qed

text \<open>
  Why the priorities are bounded: 200 as an \<open>i8\<close> is -56, which is less than every
  \<open>u8\<close>, so a thread of priority 200 is inserted at the head of the queue [B, C, A].
\<close>

lemma InsertThread_priority_200:
  "queue_after
     (InsertThread (upd_thread scenario_BCA 3 (\<lambda>t. t\<lparr>priority := 200\<rparr>)) 3 3) 0
     = Some [3, 2, 1, 0]"
  by (simp add: scheduler_defs scenario_defs scenario_BCA_def Let_def)

end
